theory Spec2Isabelle
  imports Complex_Main "HOL-Library.Log_Nat"
begin

section \<open>Dates, times and durations\<close>

text \<open>
  \<^verbatim>\<open>app.py\<close> reads the wall clock with \<^verbatim>\<open>datetime.now(timezone.utc)\<close>, subtracts two
  such readings, and prints readings with \<^verbatim>\<open>isoformat()\<close>. A Python \<^verbatim>\<open>datetime\<close> is a
  tuple of calendar fields; every value here carries the same \<^verbatim>\<open>tzinfo\<close>
  (\<^verbatim>\<open>timezone.utc\<close>), so the zone is not a field of the model.
\<close>

record datetime =
  year :: nat
  month :: nat
  day :: nat
  hour :: nat
  minute :: nat
  second :: nat
  microsecond :: nat

definition is_leap :: "nat \<Rightarrow> bool" where
  "is_leap y = (y mod 4 = 0 \<and> (y mod 100 \<noteq> 0 \<or> y mod 400 = 0))"

definition DAYS_IN_MONTH :: "nat list" where
  "DAYS_IN_MONTH = [0, 31, 28, 31, 30, 31, 30, 31, 31, 30, 31, 30, 31]"

definition days_in_month :: "nat \<Rightarrow> nat \<Rightarrow> nat" where
  "days_in_month y m = (if m = 2 \<and> is_leap y then 29 else DAYS_IN_MONTH ! m)"

text \<open>The values \<^verbatim>\<open>datetime.now\<close> can return: the ranges the constructor enforces.\<close>

definition valid_datetime :: "datetime \<Rightarrow> bool" where
  "valid_datetime d =
     (1 \<le> year d \<and> year d \<le> 9999 \<and> 1 \<le> month d \<and> month d \<le> 12 \<and>
      1 \<le> day d \<and> day d \<le> days_in_month (year d) (month d) \<and>
      hour d < 24 \<and> minute d < 60 \<and> second d < 60 \<and> microsecond d < 1000000)"

text \<open>
  \<^verbatim>\<open>datetime.toordinal\<close>: days since 0001-01-01 (which is day 1), in the proleptic
  Gregorian calendar, as \<^verbatim>\<open>_ymd2ord\<close> computes it. The table is indexed by the month
  number, with a placeholder at index 0.
\<close>

definition days_before_year :: "nat \<Rightarrow> int" where
  "days_before_year yr = (let y = int yr - 1 in y * 365 + y div 4 - y div 100 + y div 400)"

definition DAYS_BEFORE_MONTH :: "int list" where
  "DAYS_BEFORE_MONTH = [-1, 0, 31, 59, 90, 120, 151, 181, 212, 243, 273, 304, 334]"

definition days_before_month :: "nat \<Rightarrow> nat \<Rightarrow> int" where
  "days_before_month y m = DAYS_BEFORE_MONTH ! m + (if m > 2 \<and> is_leap y then 1 else 0)"

definition toordinal :: "datetime \<Rightarrow> int" where
  "toordinal d = days_before_year (year d) + days_before_month (year d) (month d) + int (day d)"

text \<open>
  A \<^verbatim>\<open>timedelta\<close> is the triple (days, seconds, microseconds), normalised; the model keeps
  the exact number of microseconds it stands for, which normalisation does not change.
  \<^verbatim>\<open>datetime.__sub__\<close> on two values of one zone builds
  \<^verbatim>\<open>timedelta(days1 - days2, secs1 - secs2, us1 - us2)\<close>.
\<close>

type_synonym timedelta = int

definition datetime_sub :: "datetime \<Rightarrow> datetime \<Rightarrow> timedelta" where
  "datetime_sub a b =
     (let days1 = toordinal a; days2 = toordinal b;
          secs1 = int (second a) + int (minute a) * 60 + int (hour a) * 3600;
          secs2 = int (second b) + int (minute b) * 60 + int (hour b) * 3600
      in ((days1 - days2) * 86400 + (secs1 - secs2)) * 1000000
           + (int (microsecond a) - int (microsecond b)))"

text \<open>
  \<^verbatim>\<open>timedelta.total_seconds()\<close> divides the microsecond count by \<open>10\<^sup>6\<close> with Python's
  division of two integers, whose result is a double: the binary floating-point number
  with a 53-bit significand nearest to the exact quotient, a tie going to the even
  significand. For a positive quotient \<open>a / b\<close>, \<open>binade\<close> is the exponent \<open>k\<close> with
  \<open>2\<^sup>k \<le> a / b < 2\<^sup>k\<^sup>+\<^sup>1\<close>, found from the bit lengths of \<open>a\<close> and \<open>b\<close>; the doubles of
  that range are the multiples of \<open>2\<^sup>k\<^sup>-\<^sup>5\<^sup>2\<close>. The quotients of this program are far
  inside the range of the exponent of a double, so no overflow or subnormal number
  occurs, and the divisor is the positive constant \<open>10\<^sup>6\<close>.
\<close>

definition round_half_even :: "real \<Rightarrow> int" where
  "round_half_even x =
     (let f = \<lfloor>x\<rfloor>; r = x - of_int f
      in if r < 1 / 2 then f else if 1 / 2 < r then f + 1 else if even f then f else f + 1)"

definition binade :: "int \<Rightarrow> int \<Rightarrow> int" where
  "binade a b =
     (let k = bitlen a - bitlen b
      in if 2 powi k \<le> real_of_int a / real_of_int b then k else k - 1)"

definition nearest_double :: "int \<Rightarrow> int \<Rightarrow> real" where
  "nearest_double a b =
     (let e = binade a b - 52
      in of_int (round_half_even (of_int a / (of_int b * 2 powi e))) * 2 powi e)"

definition true_divide :: "int \<Rightarrow> int \<Rightarrow> real" where
  "true_divide a b =
     (if a = 0 then 0 else if 0 < a then nearest_double a b else - nearest_double (- a) b)"

definition total_seconds :: "timedelta \<Rightarrow> real" where
  "total_seconds td = true_divide td 1000000"

text \<open>Python's \<^verbatim>\<open>int(x)\<close> on a float truncates towards zero.\<close>

definition py_int :: "real \<Rightarrow> int" where
  "py_int x = (if 0 \<le> x then \<lfloor>x\<rfloor> else \<lceil>x\<rceil>)"

text \<open>
  The order of two readings on the time line, which the program never computes but the
  specification speaks of: \<open>a\<close> is not earlier than \<open>b\<close> when their difference is not
  negative.
\<close>

definition not_earlier :: "datetime \<Rightarrow> datetime \<Rightarrow> bool" where
  "not_earlier a b = (0 \<le> datetime_sub a b)"

section \<open>Text: decimal numbers, ISO timestamps, JSON\<close>

text \<open>The digit of a number below ten (below sixteen, in hexadecimal).\<close>

definition digit_char :: "nat \<Rightarrow> char" where
  "digit_char n = ''0123456789'' ! n"

fun str_nat :: "nat \<Rightarrow> string" where
  "str_nat n = (if n < 10 then [digit_char n] else str_nat (n div 10) @ [digit_char (n mod 10)])"

declare str_nat.simps [simp del]

text \<open>\<^verbatim>\<open>str(i)\<close> for a Python integer.\<close>

definition str_int :: "int \<Rightarrow> string" where
  "str_int i = (if i < 0 then CHR ''-'' # str_nat (nat (- i)) else str_nat (nat i))"

text \<open>\<^verbatim>\<open>"%0wd" % n\<close> for a number that is not negative: zeros on the left up to width \<open>w\<close>.\<close>

definition zero_pad :: "nat \<Rightarrow> nat \<Rightarrow> string" where
  "zero_pad w n = (let s = str_nat n in replicate (w - length s) CHR ''0'' @ s)"

text \<open>
  \<^verbatim>\<open>datetime.isoformat()\<close> with its defaults: \<^verbatim>\<open>YYYY-MM-DDTHH:MM:SS\<close>, then
  \<^verbatim>\<open>.ffffff\<close> unless the microsecond is 0, then the offset, which is \<^verbatim>\<open>+00:00\<close> for
  \<^verbatim>\<open>timezone.utc\<close>.
\<close>

definition isoformat :: "datetime \<Rightarrow> string" where
  "isoformat d =
     zero_pad 4 (year d) @ ''-'' @ zero_pad 2 (month d) @ ''-'' @ zero_pad 2 (day d) @ ''T'' @
     zero_pad 2 (hour d) @ '':'' @ zero_pad 2 (minute d) @ '':'' @ zero_pad 2 (second d) @
     (if microsecond d \<noteq> 0 then ''.'' @ zero_pad 6 (microsecond d) else []) @
     ''+00:00''"

text \<open>
  The Python objects the handlers serialise: \<^verbatim>\<open>None\<close>, integers, strings, and
  dictionaries with string keys (kept in insertion order, as \<^verbatim>\<open>dict\<close> does). A
  character of a \<open>string\<close> stands for the code point of its number.
\<close>

datatype py = PyNone | PyInt int | PyStr string | PyDict "(string \<times> py) list"

definition hex_char :: "nat \<Rightarrow> char" where
  "hex_char n = ''0123456789abcdef'' ! n"

text \<open>
  \<^verbatim>\<open>json.dumps\<close> with its defaults (\<^verbatim>\<open>ensure_ascii=True\<close>, separators \<^verbatim>\<open>", "\<close> and
  \<^verbatim>\<open>": "\<close>, keys in the dictionary's order). In a string, the quote and the backslash are
  escaped, the printable ASCII characters stand for themselves, and every other character
  is written as an escape (\<^verbatim>\<open>\n\<close>, \<^verbatim>\<open>\r\<close>, \<^verbatim>\<open>\t\<close>, \<^verbatim>\<open>\b\<close>, \<^verbatim>\<open>\f\<close>, or \<^verbatim>\<open>\u00XX\<close>).
\<close>

definition escape_char :: "char \<Rightarrow> string" where
  "escape_char c =
     (let n = (of_char c :: nat) in
      if n = 0x22 then [CHR 0x5C, CHR 0x22]
      else if n = 0x5C then [CHR 0x5C, CHR 0x5C]
      else if n = 0x0A then [CHR 0x5C, CHR ''n'']
      else if n = 0x0D then [CHR 0x5C, CHR ''r'']
      else if n = 0x09 then [CHR 0x5C, CHR ''t'']
      else if n = 0x08 then [CHR 0x5C, CHR ''b'']
      else if n = 0x0C then [CHR 0x5C, CHR ''f'']
      else if 0x20 \<le> n \<and> n \<le> 0x7E then [c]
      else [CHR 0x5C, CHR ''u'', CHR ''0'', CHR ''0'', hex_char (n div 16), hex_char (n mod 16)])"

definition encode_basestring_ascii :: "string \<Rightarrow> string" where
  "encode_basestring_ascii s = CHR 0x22 # concat (map escape_char s) @ [CHR 0x22]"

fun join :: "string \<Rightarrow> string list \<Rightarrow> string" where
  "join sep [] = []"
| "join sep [x] = x"
| "join sep (x # y # ys) = x @ sep @ join sep (y # ys)"

fun json_dumps :: "py \<Rightarrow> string" where
  "json_dumps PyNone = ''null''"
| "json_dumps (PyInt i) = str_int i"
| "json_dumps (PyStr s) = encode_basestring_ascii s"
| "json_dumps (PyDict kvs) =
     ''{'' @ join '', '' (map (\<lambda>(k, v). encode_basestring_ascii k @ '': '' @ json_dumps v) kvs) @ ''}''"

section \<open>The request counter\<close>

text \<open>
  The module's globals: \<^verbatim>\<open>STARTED_AT\<close>, assigned once when the module is loaded, and the
  pair \<^verbatim>\<open>_TOTAL_REQUESTS\<close>, \<^verbatim>\<open>_LAST_HIT_UTC\<close> (names written without the leading
  underscore). \<^verbatim>\<open>_now_utc()\<close> reads the wall clock: each call is an input of the model,
  passed to the function that makes the call.
\<close>

record world =
  STARTED_AT :: datetime
  TOTAL_REQUESTS :: int
  LAST_HIT_UTC :: "datetime option"

definition module_init :: "datetime \<Rightarrow> world" where
  "module_init now = \<lparr>STARTED_AT = now, TOTAL_REQUESTS = 0, LAST_HIT_UTC = None\<rparr>"

definition uptime_seconds :: "datetime \<Rightarrow> world \<Rightarrow> int" where
  "uptime_seconds now w = py_int (total_seconds (datetime_sub now (STARTED_AT w)))"

text \<open>The \<^verbatim>\<open>before_request\<close> hook; its body runs under \<^verbatim>\<open>_LOCK\<close>.\<close>

definition count_requests :: "datetime \<Rightarrow> world \<Rightarrow> world" where
  "count_requests now w = w\<lparr>TOTAL_REQUESTS := TOTAL_REQUESTS w + 1, LAST_HIT_UTC := Some now\<rparr>"

text \<open>
  The read under \<^verbatim>\<open>_LOCK\<close> that \<^verbatim>\<open>api_status\<close> and \<^verbatim>\<open>gen\<close> both begin with: the counter,
  and the last hit as text or \<^verbatim>\<open>None\<close>. A \<^verbatim>\<open>datetime\<close> is always true in a condition, so
  the test \<^verbatim>\<open>if _LAST_HIT_UTC\<close> asks whether it is set.
\<close>

definition snapshot :: "world \<Rightarrow> int \<times> py" where
  "snapshot w =
     (let total = TOTAL_REQUESTS w;
          last = (case LAST_HIT_UTC w of Some t \<Rightarrow> PyStr (isoformat t) | None \<Rightarrow> PyNone)
      in (total, last))"

section \<open>The handlers\<close>

text \<open>
  What a handler reads besides the globals: the request (its route, the
  \<^verbatim>\<open>X-Forwarded-For\<close> header and the peer address, either of which may be absent) and
  the process environment (the interpreter's version, the variable
  \<^verbatim>\<open>WEBSITE_SITE_NAME\<close>). A request for a path with no route is answered 404 by the
  framework, after the \<^verbatim>\<open>before_request\<close> hook has run.
\<close>

datatype route = Home | ApiStatus | Healthz | Events | NoRoute

record request =
  route :: route
  x_forwarded_for :: "string option"
  remote_addr :: "string option"

record environ =
  python_version :: string
  WEBSITE_SITE_NAME :: "string option"

definition api_status :: "environ \<Rightarrow> request \<Rightarrow> datetime \<Rightarrow> world \<Rightarrow> py" where
  "api_status env req now w =
     (let (total, last) = snapshot w in
      PyDict
        [(''app'', PyStr ''zeinab-flabbergasted-launch''),
         (''status'', PyStr ''ok''),
         (''started_utc'', PyStr (isoformat (STARTED_AT w))),
         (''uptime_seconds'', PyInt (uptime_seconds now w)),
         (''total_requests'', PyInt total),
         (''last_hit_utc'', last),
         (''python'', PyStr (python_version env)),
         (''azure_site_name'',
            PyStr (case WEBSITE_SITE_NAME env of Some n \<Rightarrow> n | None \<Rightarrow> ''local'')),
         (''remote_addr'',
            (case x_forwarded_for req of
               Some h \<Rightarrow> PyStr h
             | None \<Rightarrow> (case remote_addr req of Some a \<Rightarrow> PyStr a | None \<Rightarrow> PyNone)))])"

text \<open>
  A response: the status code and the body. \<^verbatim>\<open>jsonify\<close> sends the dictionary it is given
  as a JSON object; a streaming body is a generator, named by its index among the
  process's generators; the markup of the landing page is not modelled, nor are the
  headers that \<^verbatim>\<open>_headers\<close> adds to every response.
\<close>

datatype body = JsonBody py | TextBody string | HtmlBody | StreamBody nat

datatype response = Response nat body

definition healthz :: response where
  "healthz = Response 200 (TextBody ''ok'')"

definition home :: response where
  "home = Response 200 HtmlBody"

section \<open>The event stream\<close>

text \<open>
  One pass of \<^verbatim>\<open>gen\<close>'s loop, from \<^verbatim>\<open>while True\<close> to the \<^verbatim>\<open>yield\<close>: the read under the
  lock, the payload, the message. The clock is read twice, by \<^verbatim>\<open>_uptime_seconds()\<close> and
  for \<^verbatim>\<open>ts\<close>.
\<close>

definition gen_payload :: "datetime \<Rightarrow> datetime \<Rightarrow> world \<Rightarrow> py" where
  "gen_payload now1 now2 w =
     (let (total, last) = snapshot w in
      PyDict
        [(''uptime'', PyInt (uptime_seconds now1 w)),
         (''total_requests'', PyInt total),
         (''last_hit_utc'', last),
         (''ts'', PyStr (isoformat now2))])"

definition gen_message :: "datetime \<Rightarrow> datetime \<Rightarrow> world \<Rightarrow> string" where
  "gen_message now1 now2 w =
     (let payload = gen_payload now1 now2 w
      in ''data: '' @ json_dumps payload @ [CHR 0x0A, CHR 0x0A])"

text \<open>
  \<^verbatim>\<open>gen()\<close> is a generator object: created without running, resumed by \<^verbatim>\<open>send\<close>
  (\<^verbatim>\<open>next\<close> sends \<^verbatim>\<open>None\<close>), suspended at its \<^verbatim>\<open>yield\<close>, ended by \<^verbatim>\<open>throw\<close> or
  \<^verbatim>\<open>close\<close>. A resumption returns the sleeps it made (in seconds), what it produced,
  and the generator's new state. The body discards the value of its \<^verbatim>\<open>yield\<close>
  expression, has no \<^verbatim>\<open>return\<close> or \<^verbatim>\<open>break\<close>, and no \<^verbatim>\<open>try\<close>.
\<close>

datatype gen_state = GEN_CREATED | GEN_SUSPENDED | GEN_CLOSED

datatype exn = StopIteration | GeneratorExit | TypeError | RuntimeError | BrokenPipeError

datatype outcome = Yield string | Raise exn

fun gen_send :: "py \<Rightarrow> datetime \<Rightarrow> datetime \<Rightarrow> world \<Rightarrow> gen_state \<Rightarrow> nat list \<times> outcome \<times> gen_state" where
  "gen_send v now1 now2 w GEN_CREATED =
     (if v = PyNone then ([], Yield (gen_message now1 now2 w), GEN_SUSPENDED)
      else ([], Raise TypeError, GEN_CREATED))"
| "gen_send v now1 now2 w GEN_SUSPENDED = ([1], Yield (gen_message now1 now2 w), GEN_SUSPENDED)"
| "gen_send v now1 now2 w GEN_CLOSED = ([], Raise StopIteration, GEN_CLOSED)"

definition gen_next :: "datetime \<Rightarrow> datetime \<Rightarrow> world \<Rightarrow> gen_state \<Rightarrow> nat list \<times> outcome \<times> gen_state" where
  "gen_next = gen_send PyNone"

text \<open>
  \<^verbatim>\<open>throw(e)\<close> raises \<open>e\<close> at the \<^verbatim>\<open>yield\<close> where the generator is suspended (or at its
  start); nothing in the body catches it, so it comes out of the generator, which is
  then closed; a \<^verbatim>\<open>StopIteration\<close> that comes out of a generator's body is turned into a
  \<^verbatim>\<open>RuntimeError\<close>; a closed generator has no body to run and the caller gets \<open>e\<close> as it
  is. \<^verbatim>\<open>close()\<close> throws \<^verbatim>\<open>GeneratorExit\<close> into a suspended generator and
  returns normally when that or \<^verbatim>\<open>StopIteration\<close> comes out; a generator that answers
  with a value gets \<^verbatim>\<open>RuntimeError\<close>. The result is the exception \<^verbatim>\<open>close()\<close> raises, if
  any.
\<close>

definition gen_throw :: "exn \<Rightarrow> gen_state \<Rightarrow> outcome \<times> gen_state" where
  "gen_throw e g =
     (if g = GEN_CLOSED then (Raise e, GEN_CLOSED)
      else if e = StopIteration then (Raise RuntimeError, GEN_CLOSED)
      else (Raise e, GEN_CLOSED))"

definition gen_close :: "gen_state \<Rightarrow> exn option \<times> gen_state" where
  "gen_close g =
     (case g of
        GEN_SUSPENDED \<Rightarrow>
          (case gen_throw GeneratorExit g of
             (Raise e, g') \<Rightarrow>
               if e = GeneratorExit \<or> e = StopIteration then (None, g') else (Some e, g')
           | (Yield m, g') \<Rightarrow> (Some RuntimeError, g'))
      | _ \<Rightarrow> (None, GEN_CLOSED))"

definition events :: "nat \<Rightarrow> response \<times> gen_state" where
  "events k = (Response 200 (StreamBody k), GEN_CREATED)"

section \<open>The server around the handlers\<close>

text \<open>
  The web server is not part of \<^verbatim>\<open>app.py\<close>; the model has of it what the WSGI protocol
  and Flask fix. A request first runs the \<^verbatim>\<open>before_request\<close> hook and later its handler,
  and requests of other threads may run in between; a streaming response is iterated by
  the server, which writes each item to the connection and calls \<^verbatim>\<open>close()\<close> on the
  iterator when a write fails or the iterator ends.
\<close>

datatype observation =
    Idle
  | Reply response
  | Chunk nat string
  | Dropped nat string "exn option"
  | Ended nat

definition pull :: "nat \<Rightarrow> bool \<Rightarrow> datetime \<Rightarrow> datetime \<Rightarrow> world \<Rightarrow> gen_state \<Rightarrow> observation \<times> gen_state" where
  "pull k ok now1 now2 w g =
     (case gen_next now1 now2 w g of
        (sl, Yield m, g') \<Rightarrow>
          if ok then (Chunk k m, g')
          else (let (err, g'') = gen_close g' in (Dropped k m err, g''))
      | (sl, Raise e, g') \<Rightarrow> (Ended k, snd (gen_close g')))"

record system =
  globals :: world
  in_flight :: "request list"
  streams :: "gen_state list"

definition boot :: "datetime \<Rightarrow> system" where
  "boot now = \<lparr>globals = module_init now, in_flight = [], streams = []\<rparr>"

definition dispatch_request :: "environ \<Rightarrow> request \<Rightarrow> datetime \<Rightarrow> system \<Rightarrow> response \<times> system" where
  "dispatch_request env req now s =
     (case route req of
        Home \<Rightarrow> (home, s)
      | ApiStatus \<Rightarrow> (Response 200 (JsonBody (api_status env req now (globals s))), s)
      | Healthz \<Rightarrow> (healthz, s)
      | Events \<Rightarrow>
          (let (r, g) = events (length (streams s)) in (r, s\<lparr>streams := streams s @ [g]\<rparr>))
      | NoRoute \<Rightarrow> (Response 404 HtmlBody, s))"

text \<open>
  The events of a run: a request arrives and its hook runs (with the hook's clock
  reading); the handler of the \<open>i\<close>-th request in flight runs (with the clock reading a
  handler may take); the server pulls the next item of the \<open>k\<close>-th stream (with the two
  clock readings of one pass of the loop, and whether the write of the item succeeds).
\<close>

datatype event =
    Arrive request datetime
  | Dispatch nat datetime
  | Pull nat datetime datetime bool

definition step :: "environ \<Rightarrow> event \<Rightarrow> system \<Rightarrow> observation \<times> system" where
  "step env ev s =
     (case ev of
        Arrive req now \<Rightarrow>
          (Idle, s\<lparr>globals := count_requests now (globals s), in_flight := in_flight s @ [req]\<rparr>)
      | Dispatch i now \<Rightarrow>
          if i < length (in_flight s) then
            (let (r, s') = dispatch_request env (in_flight s ! i) now s
             in (Reply r, s'\<lparr>in_flight := take i (in_flight s) @ drop (Suc i) (in_flight s)\<rparr>))
          else (Idle, s)
      | Pull k now1 now2 ok \<Rightarrow>
          if k < length (streams s) then
            (let (out, g) = pull k ok now1 now2 (globals s) (streams s ! k)
             in (out, s\<lparr>streams := (streams s)[k := g]\<rparr>))
          else (Idle, s))"

fun run :: "environ \<Rightarrow> event list \<Rightarrow> system \<Rightarrow> observation list \<times> system" where
  "run env [] s = ([], s)"
| "run env (ev # evs) s =
     (let (out, s') = step env ev s; (outs, s'') = run env evs s' in (out # outs, s''))"

declare run.simps [simp del]

definition is_arrive :: "event \<Rightarrow> bool" where
  "is_arrive ev = (case ev of Arrive req now \<Rightarrow> True | _ \<Rightarrow> False)"

definition is_reply :: "observation \<Rightarrow> bool" where
  "is_reply ob = (case ob of Reply r \<Rightarrow> True | _ \<Rightarrow> False)"

text \<open>
  For the \<open>k\<close>-th stream: the events that pull from it, those among them whose write
  fails (the client has gone), and the observations that are a message written to its
  client.
\<close>

definition is_pull :: "nat \<Rightarrow> event \<Rightarrow> bool" where
  "is_pull k ev = (case ev of Pull j now1 now2 ok \<Rightarrow> j = k | _ \<Rightarrow> False)"

definition failed_pull :: "nat \<Rightarrow> event \<Rightarrow> bool" where
  "failed_pull k ev = (case ev of Pull j now1 now2 ok \<Rightarrow> j = k \<and> \<not> ok | _ \<Rightarrow> False)"

definition is_chunk :: "nat \<Rightarrow> observation \<Rightarrow> bool" where
  "is_chunk k ob = (case ob of Chunk j m \<Rightarrow> j = k | _ \<Rightarrow> False)"

text \<open>
  What the order of hook and handler gives: every request in flight has been counted, and
  once the counter is positive the last hit is set.
\<close>

definition hook_ran :: "system \<Rightarrow> bool" where
  "hook_ran s =
     (int (length (in_flight s)) \<le> TOTAL_REQUESTS (globals s) \<and>
      (1 \<le> TOTAL_REQUESTS (globals s) \<longrightarrow> LAST_HIT_UTC (globals s) \<noteq> None))"

text \<open>The clock readings the hook takes in a run, in order.\<close>

fun hook_readings :: "event list \<Rightarrow> datetime list" where
  "hook_readings [] = []"
| "hook_readings (Arrive req now # evs) = now # hook_readings evs"
| "hook_readings (ev # evs) = hook_readings evs"

section \<open>The hook, instruction by instruction\<close>

text \<open>
  Requests are served by threads, and \<^verbatim>\<open>_TOTAL_REQUESTS += 1\<close> is a load followed by a
  store: another thread can run between the two. The hook of one thread is the sequence
  acquire \<^verbatim>\<open>_LOCK\<close>, load the counter, store the counter plus one, store the clock reading,
  release \<^verbatim>\<open>_LOCK\<close>. A thread that finds the lock taken waits: its step changes nothing.
  A schedule names the thread that takes each step.
\<close>

datatype pc = AtAcquire | AtLoad | AtStore | AtSetLast | AtRelease | AtDone

record thread =
  pc :: pc
  loaded :: int
  reading :: datetime

record shared =
  memory :: world
  locked :: bool
  threads :: "thread list"

definition thread_step :: "nat \<Rightarrow> shared \<Rightarrow> shared" where
  "thread_step i s =
     (if i < length (threads s) then
        (let t = threads s ! i in
         case pc t of
           AtAcquire \<Rightarrow>
             if locked s then s
             else s\<lparr>locked := True, threads := (threads s)[i := t\<lparr>pc := AtLoad\<rparr>]\<rparr>
         | AtLoad \<Rightarrow>
             s\<lparr>threads := (threads s)[i := t\<lparr>pc := AtStore, loaded := TOTAL_REQUESTS (memory s)\<rparr>]\<rparr>
         | AtStore \<Rightarrow>
             s\<lparr>memory := (memory s)\<lparr>TOTAL_REQUESTS := loaded t + 1\<rparr>,
               threads := (threads s)[i := t\<lparr>pc := AtSetLast\<rparr>]\<rparr>
         | AtSetLast \<Rightarrow>
             s\<lparr>memory := (memory s)\<lparr>LAST_HIT_UTC := Some (reading t)\<rparr>,
               threads := (threads s)[i := t\<lparr>pc := AtRelease\<rparr>]\<rparr>
         | AtRelease \<Rightarrow>
             s\<lparr>locked := False, threads := (threads s)[i := t\<lparr>pc := AtDone\<rparr>]\<rparr>
         | AtDone \<Rightarrow> s)
      else s)"

definition interleave :: "nat list \<Rightarrow> shared \<Rightarrow> shared" where
  "interleave sched s = foldl (\<lambda>s i. thread_step i s) s sched"

text \<open>One thread per request, each with the clock reading its hook will take.\<close>

definition spawn :: "datetime list \<Rightarrow> world \<Rightarrow> shared" where
  "spawn nows w =
     \<lparr>memory = w, locked = False,
      threads = map (\<lambda>now. \<lparr>pc = AtAcquire, loaded = 0, reading = now\<rparr>) nows\<rparr>"

definition all_done :: "shared \<Rightarrow> bool" where
  "all_done s = list_all (\<lambda>t. pc t = AtDone) (threads s)"

text \<open>
  What holds between the steps: the thread in the critical section, if any, is the one
  that took the lock; the counter is its first value plus the number of threads past
  their store; a thread about to store has loaded the current counter.
\<close>

definition in_critical :: "thread \<Rightarrow> bool" where
  "in_critical t = (pc t = AtLoad \<or> pc t = AtStore \<or> pc t = AtSetLast \<or> pc t = AtRelease)"

definition counted :: "thread \<Rightarrow> bool" where
  "counted t = (pc t = AtSetLast \<or> pc t = AtRelease \<or> pc t = AtDone)"

definition lock_inv :: "int \<Rightarrow> nat option \<Rightarrow> shared \<Rightarrow> bool" where
  "lock_inv n0 owner s =
     ((locked s \<longleftrightarrow> owner \<noteq> None) \<and>
      (\<forall>j. owner = Some j \<longrightarrow> j < length (threads s)) \<and>
      (\<forall>j < length (threads s). in_critical (threads s ! j) \<longleftrightarrow> owner = Some j) \<and>
      TOTAL_REQUESTS (memory s) = n0 + int (length (filter counted (threads s))) \<and>
      (\<forall>j < length (threads s). pc (threads s ! j) = AtStore \<longrightarrow>
         loaded (threads s ! j) = TOTAL_REQUESTS (memory s)))"

text \<open>
  The schedule that lets the threads \<open>i\<close>, \<open>i + 1\<close>, ... below \<open>n\<close> run one after the other,
  five steps each, and the states it passes through: the lock free, the threads below
  \<open>i\<close> finished, the others not started.
\<close>

definition in_turn :: "nat \<Rightarrow> nat \<Rightarrow> nat list" where
  "in_turn i n = concat (map (replicate 5) [i..<n])"

definition done_upto :: "nat \<Rightarrow> shared \<Rightarrow> bool" where
  "done_upto i s =
     (\<not> locked s \<and>
      (\<forall>j < length (threads s). pc (threads s ! j) = (if j < i then AtDone else AtAcquire)))"

section \<open>Reading a response\<close>

text \<open>The value of a key of a dictionary, as a client that parsed the JSON object finds it.\<close>

definition dict_get :: "py \<Rightarrow> string \<Rightarrow> py option" where
  "dict_get d k = (case d of PyDict kvs \<Rightarrow> map_of kvs k | _ \<Rightarrow> None)"

definition dict_keys :: "py \<Rightarrow> string list" where
  "dict_keys d = (case d of PyDict kvs \<Rightarrow> map fst kvs | _ \<Rightarrow> [])"

text \<open>
  The shape of an ISO-8601 timestamp with a UTC offset, as \<^verbatim>\<open>isoformat\<close> writes it:
  in a pattern, \<open>d\<close> stands for a decimal digit and every other character for itself.
\<close>

definition is_digit :: "char \<Rightarrow> bool" where
  "is_digit c = (c \<in> set ''0123456789'')"

fun matches :: "string \<Rightarrow> string \<Rightarrow> bool" where
  "matches [] [] = True"
| "matches (p # ps) (c # cs) = ((if p = CHR ''d'' then is_digit c else c = p) \<and> matches ps cs)"
| "matches _ _ = False"

definition is_iso8601 :: "string \<Rightarrow> bool" where
  "is_iso8601 s =
     (matches ''dddd-dd-ddTdd:dd:dd+00:00'' s \<or> matches ''dddd-dd-ddTdd:dd:dd.dddddd+00:00'' s)"

text \<open>
  The printable ASCII characters, from the space to the tilde: none of them is a line
  break. Text that UTF-8 encodes byte for byte: every character is below 128.
\<close>

definition printable :: "char \<Rightarrow> bool" where
  "printable c = (0x20 \<le> (of_char c :: nat) \<and> (of_char c :: nat) \<le> 0x7E)"

definition ascii_only :: "string \<Rightarrow> bool" where
  "ascii_only s = list_all (\<lambda>c. (of_char c :: nat) < 128) s"

section \<open>Sample inputs\<close>

text \<open>Clock readings and a request used to run the definitions on concrete inputs.\<close>

definition ex_start :: datetime where
  "ex_start = \<lparr>year = 2024, month = 3, day = 1, hour = 12, minute = 0, second = 0, microsecond = 0\<rparr>"

definition ex_hit :: datetime where
  "ex_hit = \<lparr>year = 2024, month = 3, day = 1, hour = 12, minute = 0, second = 2, microsecond = 0\<rparr>"

definition ex_plus5 :: datetime where
  "ex_plus5 = \<lparr>year = 2024, month = 3, day = 1, hour = 12, minute = 0, second = 5, microsecond = 0\<rparr>"

definition ex_later :: datetime where
  "ex_later = \<lparr>year = 2024, month = 3, day = 1, hour = 12, minute = 0, second = 9, microsecond = 250000\<rparr>"

definition ex_before :: datetime where
  "ex_before = \<lparr>year = 2024, month = 2, day = 29, hour = 23, minute = 59, second = 58, microsecond = 0\<rparr>"

definition ex_far :: datetime where
  "ex_far = \<lparr>year = 2600, month = 1, day = 1, hour = 0, minute = 0, second = 0, microsecond = 999999\<rparr>"

definition ex_request :: "route \<Rightarrow> request" where
  "ex_request r = \<lparr>route = r, x_forwarded_for = None, remote_addr = Some ''127.0.0.1''\<rparr>"

definition ex_environ :: environ where
  "ex_environ = \<lparr>python_version = ''3.11.4'', WEBSITE_SITE_NAME = None\<rparr>"

section \<open>Uptime\<close>

lemma datetime_sub_add: "datetime_sub a c = datetime_sub a b + datetime_sub b c"
  by (simp add: datetime_sub_def Let_def algebra_simps)

text \<open>The definitions that evaluate the difference of two concrete readings.\<close>

lemmas dt_defs = not_earlier_def datetime_sub_def toordinal_def days_before_year_def
  days_before_month_def DAYS_BEFORE_MONTH_def is_leap_def Let_def

lemmas ex_defs = ex_start_def ex_hit_def ex_plus5_def ex_later_def ex_before_def ex_far_def
  ex_request_def ex_environ_def

text \<open>Rounding to the nearest integer, and the double nearest to a quotient.\<close>

lemma rhe_lower: "x - 1 / 2 \<le> of_int (round_half_even x)"
  unfolding round_half_even_def Let_def by (auto; linarith)

lemma rhe_upper: "of_int (round_half_even x) \<le> x + 1 / 2"
  unfolding round_half_even_def Let_def by (auto; linarith)

lemma rhe_of_int: "round_half_even (of_int n) = n"
  by (simp add: round_half_even_def)

lemma rhe_mono: "x \<le> y \<Longrightarrow> round_half_even x \<le> round_half_even y"
proof -
  assume le: "x \<le> y"
  then have fl: "\<lfloor>x\<rfloor> \<le> \<lfloor>y\<rfloor>" by (rule floor_mono)
  show ?thesis
  proof (cases "\<lfloor>x\<rfloor> = \<lfloor>y\<rfloor>")
    case True
    with le show ?thesis
      unfolding round_half_even_def Let_def by (auto; linarith)
  next
    case False
    with fl have "\<lfloor>x\<rfloor> + 1 \<le> \<lfloor>y\<rfloor>" by simp
    moreover have "round_half_even x \<le> \<lfloor>x\<rfloor> + 1"
      unfolding round_half_even_def Let_def by auto
    moreover have "\<lfloor>y\<rfloor> \<le> round_half_even y"
      unfolding round_half_even_def Let_def by auto
    ultimately show ?thesis by linarith
  qed
qed

lemma rhe_unique: "\<bar>x - of_int m\<bar> < 1 / 2 \<Longrightarrow> round_half_even x = m"
proof -
  assume a: "\<bar>x - of_int m\<bar> < 1 / 2"
  have "of_int (round_half_even x) - of_int m < (1::real)" "of_int m - of_int (round_half_even x) < (1::real)"
    using a rhe_lower [of x] rhe_upper [of x] by linarith+
  then have "round_half_even x - m < 1" "m - round_half_even x < 1"
    by linarith+
  then show ?thesis by simp
qed

lemma two_powi_pos: "0 < (2::real) powi k"
  by simp

lemma bitlen_powi:
  assumes "0 < a"
  shows "2 powi (bitlen a - 1) \<le> real_of_int a" and "real_of_int a < 2 powi bitlen a"
proof -
  from assms have one: "1 \<le> bitlen a" by (auto simp: bitlen_alt_def)
  from bitlen_bounds [OF assms]
  have lo: "2 ^ nat (bitlen a - 1) \<le> a" and hi: "a < 2 ^ nat (bitlen a)" by simp_all
  from lo have "real_of_int (2 ^ nat (bitlen a - 1)) \<le> real_of_int a" by (rule of_int_le_iff [THEN iffD2])
  with one show "2 powi (bitlen a - 1) \<le> real_of_int a"
    by (simp add: power_int_nonneg_exp)
  from hi have "real_of_int a < real_of_int (2 ^ nat (bitlen a))" by (rule of_int_less_iff [THEN iffD2])
  with one show "real_of_int a < 2 powi bitlen a"
    by (simp add: power_int_nonneg_exp)
qed

lemma binade_bounds:
  assumes "0 < a" and "0 < b"
  shows "2 powi binade a b \<le> real_of_int a / real_of_int b"
    and "real_of_int a / real_of_int b < 2 powi (binade a b + 1)"
proof -
  let ?k = "bitlen a - bitlen b"
  let ?q = "real_of_int a / real_of_int b"
  from assms have b: "0 < real_of_int b" by simp
  note A = bitlen_powi [OF assms(1)]
  note B = bitlen_powi [OF assms(2)]
  have up: "?q < 2 powi (?k + 1)"
  proof -
    have "?q < 2 powi bitlen a / real_of_int b"
      using A(2) b by (simp add: divide_strict_right_mono)
    also have "\<dots> \<le> 2 powi bitlen a / 2 powi (bitlen b - 1)"
      using B(1) b by (intro divide_left_mono mult_pos_pos) simp_all
    also have "\<dots> = 2 powi (bitlen a - (bitlen b - 1))"
      by (simp add: power_int_diff)
    finally show ?thesis by (simp add: algebra_simps)
  qed
  have low: "2 powi (?k - 1) \<le> ?q"
  proof -
    have "2 powi (bitlen a - 1 - bitlen b) = 2 powi (bitlen a - 1) / (2::real) powi bitlen b"
      by (simp add: power_int_diff)
    also have "\<dots> \<le> real_of_int a / 2 powi bitlen b"
      using A(1) by (simp add: divide_right_mono)
    also have "\<dots> \<le> ?q"
      using B(2) b assms(1) by (intro divide_left_mono mult_pos_pos) simp_all
    finally show ?thesis by (simp add: algebra_simps)
  qed
  show "2 powi binade a b \<le> ?q"
    using low by (simp add: binade_def Let_def)
  show "?q < 2 powi (binade a b + 1)"
    using up by (auto simp: binade_def Let_def not_le)
qed

lemma binade_mono:
  assumes "0 < a" and "a \<le> a'" and "0 < b"
  shows "binade a b \<le> binade a' b"
proof (rule ccontr)
  assume "\<not> binade a b \<le> binade a' b"
  then have "binade a' b + 1 \<le> binade a b" by simp
  then have "(2::real) powi (binade a' b + 1) \<le> 2 powi binade a b"
    by (intro power_int_increasing) simp_all
  moreover from assms have a': "0 < a'" by simp
  note binade_bounds(2) [OF a' assms(3)] binade_bounds(1) [OF assms(1) assms(3)]
  moreover from assms have "real_of_int a / real_of_int b \<le> real_of_int a' / real_of_int b"
    by (simp add: divide_right_mono)
  ultimately show False by linarith
qed

lemma scaled_bounds:
  assumes "0 < a" and "0 < b"
  shows "2 ^ 52 \<le> real_of_int a / (real_of_int b * 2 powi (binade a b - 52))"
    and "real_of_int a / (real_of_int b * 2 powi (binade a b - 52)) < 2 ^ 53"
proof -
  let ?k = "binade a b"
  have e: "(2::real) powi (?k - 52) = 2 powi ?k / 2 ^ 52"
    by (simp add: power_int_diff)
  have e1: "(2::real) powi (?k + 1) = 2 powi ?k * 2"
    by (simp add: power_int_add)
  have p: "0 < (2::real) powi ?k" by simp
  from binade_bounds [OF assms] p
  show "2 ^ 52 \<le> real_of_int a / (real_of_int b * 2 powi (?k - 52))"
    and "real_of_int a / (real_of_int b * 2 powi (?k - 52)) < 2 ^ 53"
    unfolding e e1 using assms(2)
    by (simp_all add: field_simps)
qed

lemma nearest_double_bounds:
  assumes "0 < a" and "0 < b"
  shows "2 powi binade a b \<le> nearest_double a b"
    and "nearest_double a b \<le> 2 powi (binade a b + 1)"
proof -
  let ?k = "binade a b"
  let ?y = "real_of_int a / (real_of_int b * 2 powi (?k - 52))"
  have "real_of_int (2 ^ 52) \<le> ?y" using scaled_bounds(1) [OF assms] by simp
  then have "round_half_even (real_of_int (2 ^ 52)) \<le> round_half_even ?y" by (rule rhe_mono)
  then have lo: "2 ^ 52 \<le> round_half_even ?y" by (simp only: rhe_of_int)
  have "?y \<le> real_of_int (2 ^ 53)" using scaled_bounds(2) [OF assms] by simp
  then have "round_half_even ?y \<le> round_half_even (real_of_int (2 ^ 53))" by (rule rhe_mono)
  then have hi: "round_half_even ?y \<le> 2 ^ 53" by (simp only: rhe_of_int)
  have e: "(2::real) powi ?k = 2 ^ 52 * 2 powi (?k - 52)"
    by (simp add: power_int_diff)
  have e1: "(2::real) powi (?k + 1) = 2 ^ 53 * 2 powi (?k - 52)"
    by (simp add: power_int_diff power_int_add)
  from lo have "(2::real) ^ 52 \<le> of_int (round_half_even ?y)"
    by (metis of_int_le_iff of_int_numeral of_int_power)
  then show "2 powi ?k \<le> nearest_double a b"
    unfolding e nearest_double_def Let_def by (intro mult_right_mono) simp_all
  from hi have "of_int (round_half_even ?y) \<le> (2::real) ^ 53"
    by (metis of_int_le_iff of_int_numeral of_int_power)
  then show "nearest_double a b \<le> 2 powi (?k + 1)"
    unfolding e1 nearest_double_def Let_def by (intro mult_right_mono) simp_all
qed

lemma nearest_double_mono:
  assumes "0 < a" and "a \<le> a'" and "0 < b"
  shows "nearest_double a b \<le> nearest_double a' b"
proof -
  from assms have a': "0 < a'" by simp
  from binade_mono [OF assms] have k: "binade a b \<le> binade a' b" .
  show ?thesis
  proof (cases "binade a b = binade a' b")
    case True
    from assms have "real_of_int a / (real_of_int b * 2 powi (binade a b - 52))
        \<le> real_of_int a' / (real_of_int b * 2 powi (binade a b - 52))"
      by (intro divide_right_mono) simp_all
    then have "round_half_even (real_of_int a / (real_of_int b * 2 powi (binade a b - 52)))
        \<le> round_half_even (real_of_int a' / (real_of_int b * 2 powi (binade a b - 52)))"
      by (rule rhe_mono)
    then show ?thesis
      unfolding nearest_double_def Let_def True [symmetric]
      by (intro mult_right_mono) simp_all
  next
    case False
    with k have "binade a b + 1 \<le> binade a' b" by simp
    then have "(2::real) powi (binade a b + 1) \<le> 2 powi binade a' b"
      by (intro power_int_increasing) simp_all
    with nearest_double_bounds(2) [OF assms(1) assms(3)] nearest_double_bounds(1) [OF a' assms(3)]
    show ?thesis by linarith
  qed
qed

lemma nearest_double_pos: "0 < a \<Longrightarrow> 0 < b \<Longrightarrow> 0 < nearest_double a b"
  using nearest_double_bounds(1) [of a b] two_powi_pos [of "binade a b"] by linarith

lemma true_divide_nonneg: "0 \<le> a \<Longrightarrow> 0 < b \<Longrightarrow> 0 \<le> true_divide a b"
  using nearest_double_pos [of a b] by (auto simp: true_divide_def)

lemma true_divide_mono:
  assumes "0 \<le> a" and "a \<le> a'" and "0 < b"
  shows "true_divide a b \<le> true_divide a' b"
proof (cases "a = 0")
  case True
  with assms true_divide_nonneg [of a' b] show ?thesis by (simp add: true_divide_def)
next
  case False
  with assms have "0 < a" "0 < a'" by simp_all
  with nearest_double_mono [OF \<open>0 < a\<close> assms(2) assms(3)] show ?thesis
    by (simp add: true_divide_def)
qed

lemma nearest_double_truncates:
  assumes "0 < a" and "a < 2 ^ 34 * 1000000"
  shows "\<lfloor>nearest_double a 1000000\<rfloor> = a div 1000000"
proof -
  let ?k = "binade a 1000000"
  let ?q = "real_of_int a / 1000000"
  let ?n = "a div 1000000"
  define j where "j = nat (52 - ?k)"
  let ?s = "(2::real) ^ j"
  have b: "(0::int) < 1000000" by simp
  from binade_bounds(1) [OF assms(1) b] have "2 powi ?k \<le> ?q" by simp
  also from assms(2) have "?q < 2 ^ 34" by simp
  finally have "(2::real) powi ?k < 2 powi 34" by simp
  then have k: "?k < 34" by (rule power_int_le_imp_less_exp [rotated]) simp_all
  then have j: "19 \<le> j" and kj: "?k - 52 = - int j" by (simp_all add: j_def)
  have pw: "(2::real) powi (?k - 52) = 1 / ?s"
    unfolding kj by (simp add: power_int_minus_divide)
  have "(2::real) ^ 19 \<le> ?s" using j by (intro power_increasing) simp_all
  then have s: "524288 \<le> ?s" by simp
  let ?y = "real_of_int a / (1000000 * 2 powi (?k - 52))"
  have y: "?y = ?q * ?s" by (simp add: pw)
  have nd: "nearest_double a 1000000 = real_of_int (round_half_even ?y) / ?s"
    by (simp add: nearest_double_def Let_def pw)
  have "real_of_int a = real_of_int (?n * 1000000 + a mod 1000000)"
    by (simp only: div_mult_mod_eq)
  then have ra: "real_of_int a = real_of_int ?n * 1000000 + real_of_int (a mod 1000000)"
    by (simp only: of_int_add of_int_mult of_int_numeral)
  have "0 \<le> a mod 1000000" "a mod 1000000 \<le> 999999" by simp_all
  then have r: "0 \<le> real_of_int (a mod 1000000)" "real_of_int (a mod 1000000) \<le> 999999"
    by linarith+
  have q: "?q = real_of_int ?n + real_of_int (a mod 1000000) / 1000000"
    by (subst ra) (simp add: field_simps)
  have qlo: "real_of_int ?n \<le> ?q" using r(1) by (simp add: q)
  have qhi: "?q \<le> real_of_int ?n + 999999 / 1000000" using r(2) by (simp add: q)
  have "real_of_int ?n * ?s \<le> ?q * ?s"
    using qlo by (intro mult_right_mono) simp_all
  then have "real_of_int (?n * 2 ^ j) \<le> ?y"
    unfolding y by simp
  then have "round_half_even (real_of_int (?n * 2 ^ j)) \<le> round_half_even ?y" by (rule rhe_mono)
  then have "?n * 2 ^ j \<le> round_half_even ?y" by (simp only: rhe_of_int)
  then have "real_of_int (?n * 2 ^ j) \<le> real_of_int (round_half_even ?y)" by (simp only: of_int_le_iff)
  then have lower: "real_of_int ?n \<le> nearest_double a 1000000"
    by (simp add: nd field_simps)
  have "?y \<le> (real_of_int ?n + 999999 / 1000000) * ?s"
    unfolding y using qhi by (intro mult_right_mono) simp_all
  with rhe_upper [of ?y]
  have "real_of_int (round_half_even ?y) \<le> (real_of_int ?n + 999999 / 1000000) * ?s + 1 / 2"
    by linarith
  also have "\<dots> < (real_of_int ?n + 1) * ?s"
    using s by (simp add: algebra_simps)
  finally have upper: "nearest_double a 1000000 < real_of_int ?n + 1"
    by (simp add: nd field_simps)
  from lower upper show ?thesis by (rule floor_unique)
qed

lemma py_int_total_seconds:
  assumes "0 \<le> d" and "d < 2 ^ 34 * 1000000"
  shows "py_int (total_seconds d) = d div 1000000"
proof (cases "d = 0")
  case True
  then show ?thesis by (simp add: py_int_def total_seconds_def true_divide_def)
next
  case False
  with assms have d: "0 < d" by simp
  then have "0 \<le> total_seconds d"
    by (simp add: total_seconds_def true_divide_nonneg)
  with d nearest_double_truncates [OF d assms(2)] show ?thesis
    by (simp add: py_int_def total_seconds_def true_divide_def)
qed

lemma py_int_total_seconds_mono:
  assumes "0 \<le> d" and "d \<le> d'"
  shows "0 \<le> py_int (total_seconds d)" and "py_int (total_seconds d) \<le> py_int (total_seconds d')"
proof -
  from assms have x: "0 \<le> total_seconds d"
    by (simp add: total_seconds_def true_divide_nonneg)
  from assms have xy: "total_seconds d \<le> total_seconds d'"
    by (simp add: total_seconds_def true_divide_mono)
  from x show "0 \<le> py_int (total_seconds d)" by (simp add: py_int_def)
  from x xy show "py_int (total_seconds d) \<le> py_int (total_seconds d')"
    by (simp add: py_int_def floor_mono)
qed

text \<open>
  C8, as stated, fails: from spans of \<open>2\<^sup>3\<^sup>4\<close> seconds (about 544 years) on, the double that
  \<^verbatim>\<open>total_seconds()\<close> returns can be the next whole number. From 2024-03-01T12:00:00 to
  2600-01-01T00:00:00.999999 there are 18171604800 whole seconds, and the uptime is
  18171604801.
\<close>

theorem uptime_rounds_up:
  "not_earlier ex_far (STARTED_AT (module_init ex_start)) \<and>
   datetime_sub ex_far (STARTED_AT (module_init ex_start)) div 1000000 = 18171604800 \<and>
   uptime_seconds ex_far (module_init ex_start) = 18171604801"
proof -
  have d: "datetime_sub ex_far (STARTED_AT (module_init ex_start)) = 18171604800999999"
    by (simp add: dt_defs ex_defs module_init_def)
  have t: "true_divide 18171604800999999 1000000 = 18171604801"
    by code_simp
  show ?thesis
    by (simp add: not_earlier_def uptime_seconds_def total_seconds_def py_int_def d t)
qed

text \<open>
  C8, amended. For every reading \<open>now\<close> that is not earlier than \<^verbatim>\<open>STARTED_AT\<close>, the uptime
  is not negative and does not decrease when \<open>now\<close> moves forward; and when \<open>now\<close> is less
  than \<open>2\<^sup>3\<^sup>4\<close> seconds after the start, the uptime is the difference of the two in whole
  seconds (the microseconds divided by \<open>10\<^sup>6\<close>, rounded down): it is 5 when \<open>now\<close> is
  five seconds after the start.
\<close>

theorem uptime_whole_seconds:
  "not_earlier now (STARTED_AT w) \<Longrightarrow>
     (datetime_sub now (STARTED_AT w) < 2 ^ 34 * 1000000 \<longrightarrow>
        uptime_seconds now w = datetime_sub now (STARTED_AT w) div 1000000) \<and>
     0 \<le> uptime_seconds now w \<and>
     (not_earlier now' now \<longrightarrow> uptime_seconds now w \<le> uptime_seconds now' w) \<and>
     (datetime_sub now (STARTED_AT w) = 5000000 \<longrightarrow> uptime_seconds now w = 5)"
proof -
  assume a: "not_earlier now (STARTED_AT w)"
  let ?d = "datetime_sub now (STARTED_AT w)"
  from a have d: "0 \<le> ?d" by (simp add: not_earlier_def)
  have eq: "uptime_seconds now w = ?d div 1000000" if "?d < 2 ^ 34 * 1000000"
    using d that by (simp add: uptime_seconds_def py_int_total_seconds)
  have nonneg: "0 \<le> uptime_seconds now w"
    using py_int_total_seconds_mono(1) [OF d order_refl] by (simp add: uptime_seconds_def)
  have mono: "uptime_seconds now w \<le> uptime_seconds now' w" if b: "not_earlier now' now"
  proof -
    let ?d' = "datetime_sub now' (STARTED_AT w)"
    have "?d' = datetime_sub now' now + ?d" by (rule datetime_sub_add)
    with b have le: "?d \<le> ?d'" by (simp add: not_earlier_def)
    from py_int_total_seconds_mono(2) [OF d le] show ?thesis
      by (simp add: uptime_seconds_def)
  qed
  have five: "uptime_seconds now w = 5" if "?d = 5000000"
    using that eq by simp
  from eq nonneg mono five show ?thesis by blast
qed

theorem uptime_whole_seconds_witness:
  "not_earlier ex_plus5 (STARTED_AT (module_init ex_start)) \<and>
   not_earlier ex_later ex_plus5 \<and>
   datetime_sub ex_plus5 (STARTED_AT (module_init ex_start)) = 5000000 \<and>
   datetime_sub ex_plus5 (STARTED_AT (module_init ex_start)) < 2 ^ 34 * 1000000 \<and>
   uptime_seconds ex_plus5 (module_init ex_start) = 5 \<and>
   0 \<le> uptime_seconds ex_plus5 (module_init ex_start) \<and>
   uptime_seconds ex_plus5 (module_init ex_start) \<le> uptime_seconds ex_later (module_init ex_start)"
proof -
  have h1: "not_earlier ex_plus5 (STARTED_AT (module_init ex_start))"
    by (simp add: dt_defs ex_defs module_init_def)
  have h2: "not_earlier ex_later ex_plus5"
    by (simp add: dt_defs ex_defs)
  have h3: "datetime_sub ex_plus5 (STARTED_AT (module_init ex_start)) = 5000000"
    by (simp add: dt_defs ex_defs module_init_def)
  from uptime_whole_seconds [OF h1, of ex_later] h1 h2 h3 show ?thesis by simp
qed

section \<open>No update of the counter is lost\<close>

lemma foldl_count_requests:
  "TOTAL_REQUESTS (foldl (\<lambda>w now. count_requests now w) w nows) =
     TOTAL_REQUESTS w + int (length nows)"
  by (induction nows arbitrary: w) (simp_all add: count_requests_def)

lemma filter_update_count_nat:
  "i < length xs \<Longrightarrow>
     length (filter P (xs[i := y])) + (if P (xs ! i) then 1 else 0) =
       length (filter P xs) + (if P y then 1 else 0)"
proof (induction xs arbitrary: i)
  case Nil
  then show ?case by simp
next
  case (Cons x xs)
  show ?case
  proof (cases i)
    case 0
    then show ?thesis by simp
  next
    case (Suc k)
    with Cons.prems have "k < length xs" by simp
    from Cons.IH [OF this] Suc show ?thesis by simp
  qed
qed

lemma filter_update_count:
  "i < length xs \<Longrightarrow>
     int (length (filter P (xs[i := y]))) =
       int (length (filter P xs)) - (if P (xs ! i) then 1 else 0) + (if P y then 1 else 0)"
  using filter_update_count_nat [of i xs P y] by (simp split: if_splits)

text \<open>Every step of every thread keeps the invariant, with the owner it leaves behind.\<close>

lemma lock_inv_step:
  assumes "lock_inv n0 owner s"
  shows "\<exists>owner'. lock_inv n0 owner' (thread_step i s)"
proof (cases "i < length (threads s)")
  case False
  with assms show ?thesis by (auto simp: thread_step_def)
next
  case True
  note i = True
  let ?t = "threads s ! i"
  show ?thesis
  proof (cases "pc ?t")
    case AtAcquire
    show ?thesis
    proof (cases "locked s")
      case True
      with AtAcquire i assms show ?thesis by (auto simp: thread_step_def)
    next
      case False
      with assms have o: "owner = None" by (simp add: lock_inv_def)
      have "lock_inv n0 (Some i) (thread_step i s)"
        using assms i AtAcquire False o
        by (auto simp: lock_inv_def thread_step_def Let_def nth_list_update filter_update_count
            in_critical_def counted_def)
      then show ?thesis ..
    qed
  next
    case AtLoad
    with assms i have o: "owner = Some i" by (auto simp: lock_inv_def in_critical_def)
    have "lock_inv n0 (Some i) (thread_step i s)"
      using assms i AtLoad o
      by (auto simp: lock_inv_def thread_step_def Let_def nth_list_update filter_update_count
          in_critical_def counted_def)
    then show ?thesis ..
  next
    case AtStore
    with assms i have o: "owner = Some i" by (auto simp: lock_inv_def in_critical_def)
    have "lock_inv n0 (Some i) (thread_step i s)"
      using assms i AtStore o
      by (auto simp: lock_inv_def thread_step_def Let_def nth_list_update filter_update_count
          in_critical_def counted_def)
    then show ?thesis ..
  next
    case AtSetLast
    with assms i have o: "owner = Some i" by (auto simp: lock_inv_def in_critical_def)
    have "lock_inv n0 (Some i) (thread_step i s)"
      using assms i AtSetLast o
      by (auto simp: lock_inv_def thread_step_def Let_def nth_list_update filter_update_count
          in_critical_def counted_def)
    then show ?thesis ..
  next
    case AtRelease
    with assms i have o: "owner = Some i" by (auto simp: lock_inv_def in_critical_def)
    have "lock_inv n0 None (thread_step i s)"
      using assms i AtRelease o
      by (auto simp: lock_inv_def thread_step_def Let_def nth_list_update filter_update_count
          in_critical_def counted_def)
    then show ?thesis ..
  next
    case AtDone
    with assms i show ?thesis by (auto simp: thread_step_def)
  qed
qed

lemma lock_inv_interleave:
  "lock_inv n0 owner s \<Longrightarrow> \<exists>owner'. lock_inv n0 owner' (interleave sched s)"
proof (induction sched arbitrary: owner s)
  case Nil
  then show ?case by (auto simp: interleave_def)
next
  case (Cons i sched)
  from lock_inv_step [OF Cons.prems] obtain o1 where "lock_inv n0 o1 (thread_step i s)" ..
  from Cons.IH [OF this] show ?case by (simp add: interleave_def)
qed

lemma lock_inv_spawn: "lock_inv (TOTAL_REQUESTS w) None (spawn nows w)"
  by (simp add: lock_inv_def spawn_def in_critical_def counted_def)

lemma length_threads_step: "length (threads (thread_step i s)) = length (threads s)"
  by (simp add: thread_step_def Let_def split: pc.splits)

lemma length_threads_interleave: "length (threads (interleave sched s)) = length (threads s)"
  unfolding interleave_def
  by (induction sched arbitrary: s) (simp_all add: length_threads_step)

lemma all_done_total:
  assumes "lock_inv n0 owner s" and "all_done s"
  shows "TOTAL_REQUESTS (memory s) = n0 + int (length (threads s))"
proof -
  from assms(2) have "filter counted (threads s) = threads s"
    by (auto simp: all_done_def counted_def list_all_iff)
  with assms(1) show ?thesis by (simp add: lock_inv_def)
qed

text \<open>
  A thread that runs its five steps with the lock free and nobody in between does to the
  globals what \<open>count_requests\<close> does: the hook is one step of the coarser model.
\<close>

lemma hook_alone:
  assumes "\<not> locked s" and "i < length (threads s)" and "pc (threads s ! i) = AtAcquire"
  shows "interleave [i, i, i, i, i] s =
     s\<lparr>memory := count_requests (reading (threads s ! i)) (memory s),
       locked := False,
       threads := (threads s)[i := (threads s ! i)\<lparr>loaded := TOTAL_REQUESTS (memory s),
         pc := AtDone\<rparr>]\<rparr>"
  using assms by (simp add: interleave_def thread_step_def Let_def count_requests_def)

lemma interleave_append: "interleave (a @ b) s = interleave b (interleave a s)"
  by (simp add: interleave_def)

lemma done_upto_next:
  assumes "done_upto i s" and "i < length (threads s)"
  shows "done_upto (Suc i) (interleave (replicate 5 i) s)"
proof -
  from assms have free: "\<not> locked s" and start: "pc (threads s ! i) = AtAcquire"
    by (simp_all add: done_upto_def)
  have five: "replicate 5 i = [i, i, i, i, i]" by (simp add: numeral_eq_Suc)
  from assms show ?thesis
    unfolding five hook_alone [OF free assms(2) start]
    by (auto simp: done_upto_def nth_list_update less_Suc_eq)
qed

lemma in_turn_finishes:
  "done_upto i s \<Longrightarrow> i \<le> n \<Longrightarrow> n = length (threads s) \<Longrightarrow> all_done (interleave (in_turn i n) s)"
proof (induction "n - i" arbitrary: i s)
  case 0
  then show ?case
    by (auto simp: in_turn_def interleave_def done_upto_def all_done_def list_all_length)
next
  case (Suc d)
  then have i: "i < n" by simp
  with Suc.prems have i': "i < length (threads s)" by simp
  from i have split: "in_turn i n = replicate 5 i @ in_turn (Suc i) n"
    by (simp add: in_turn_def upt_conv_Cons)
  from done_upto_next [OF Suc.prems(1) i']
  have nxt: "done_upto (Suc i) (interleave (replicate 5 i) s)" .
  have len: "n = length (threads (interleave (replicate 5 i) s))"
    using Suc.prems(3) by (simp add: length_threads_interleave)
  from Suc.hyps(2) have d: "d = n - Suc i" by simp
  from i have "Suc i \<le> n" by simp
  from Suc.hyps(1) [OF d nxt this len] show ?case
    by (simp add: split interleave_append)
qed

lemma done_upto_spawn: "done_upto 0 (spawn nows w)"
  by (simp add: done_upto_def spawn_def)

lemma all_done_unlocked:
  assumes "lock_inv n0 owner s" and "all_done s"
  shows "\<not> locked s"
proof
  assume "locked s"
  with assms(1) obtain j where j: "owner = Some j" "j < length (threads s)"
    by (auto simp: lock_inv_def)
  with assms(1) have "in_critical (threads s ! j)" by (simp add: lock_inv_def)
  moreover from assms(2) j(2) have "pc (threads s ! j) = AtDone"
    by (simp add: all_done_def list_all_length)
  ultimately show False by (simp add: in_critical_def)
qed

text \<open>
  C1. After \<open>N\<close> runs of the hook from the initial state, the read under the lock returns
  \<open>N\<close> as the counter: when the runs follow one another, and also when \<open>N\<close> threads run the
  hook's instructions interleaved in any order and all have finished, which they can;
  the lock is then free for the read.
\<close>

theorem no_lost_update:
  "fst (snapshot (foldl (\<lambda>w now. count_requests now w) (module_init t0) nows)) = int (length nows) \<and>
   all_done (interleave (in_turn 0 (length nows)) (spawn nows (module_init t0))) \<and>
   (all_done (interleave sched (spawn nows (module_init t0))) \<longrightarrow>
      \<not> locked (interleave sched (spawn nows (module_init t0))) \<and>
      fst (snapshot (memory (interleave sched (spawn nows (module_init t0))))) = int (length nows))"
proof -
  have seq: "fst (snapshot (foldl (\<lambda>w now. count_requests now w) (module_init t0) nows)) =
      int (length nows)"
    by (simp add: snapshot_def Let_def foldl_count_requests module_init_def)
  have can: "all_done (interleave (in_turn 0 (length nows)) (spawn nows (module_init t0)))"
    by (rule in_turn_finishes [OF done_upto_spawn]) (simp_all add: spawn_def)
  have conc: "\<not> locked (interleave sched (spawn nows (module_init t0))) \<and>
      fst (snapshot (memory (interleave sched (spawn nows (module_init t0))))) = int (length nows)"
    if fin: "all_done (interleave sched (spawn nows (module_init t0)))"
  proof -
    let ?s = "interleave sched (spawn nows (module_init t0))"
    from lock_inv_interleave [OF lock_inv_spawn] obtain own
      where inv: "lock_inv (TOTAL_REQUESTS (module_init t0)) own ?s" ..
    from all_done_total [OF inv fin]
    have "TOTAL_REQUESTS (memory ?s) = int (length (threads ?s))"
      by (simp add: module_init_def)
    also have "length (threads ?s) = length nows"
      by (simp add: length_threads_interleave spawn_def)
    finally have "fst (snapshot (memory ?s)) = int (length nows)"
      by (simp add: snapshot_def Let_def)
    with all_done_unlocked [OF inv fin] show ?thesis by simp
  qed
  from seq can conc show ?thesis by blast
qed

theorem no_lost_update_witness:
  "all_done (interleave [0, 1, 0, 0, 1, 0, 0, 1, 1, 1, 1, 1] (spawn [ex_hit, ex_plus5] (module_init ex_start))) \<and>
   fst (snapshot (memory (interleave [0, 1, 0, 0, 1, 0, 0, 1, 1, 1, 1, 1]
     (spawn [ex_hit, ex_plus5] (module_init ex_start))))) = 2 \<and>
   fst (snapshot (foldl (\<lambda>w now. count_requests now w) (module_init ex_start) [ex_hit, ex_plus5])) = 2"
proof -
  have fin: "all_done (interleave [0, 1, 0, 0, 1, 0, 0, 1, 1, 1, 1, 1]
      (spawn [ex_hit, ex_plus5] (module_init ex_start)))"
    by (simp add: all_done_def interleave_def spawn_def thread_step_def)
  from no_lost_update [of ex_start "[ex_hit, ex_plus5]" "[0, 1, 0, 0, 1, 0, 0, 1, 1, 1, 1, 1]"] fin
  show ?thesis by simp
qed

section \<open>The counter along a run\<close>

lemma step_globals:
  "globals (snd (step env ev s)) =
     (case ev of Arrive req now \<Rightarrow> count_requests now (globals s) | _ \<Rightarrow> globals s)"
  by (simp add: step_def dispatch_request_def events_def Let_def
      split: event.splits route.splits prod.splits)

lemma run_Nil: "run env [] s = ([], s)"
  by (simp add: run.simps)

lemma run_Cons:
  "run env (ev # evs) s =
     (fst (step env ev s) # fst (run env evs (snd (step env ev s))),
      snd (run env evs (snd (step env ev s))))"
  by (simp add: run.simps Let_def split: prod.splits)

lemma run_globals:
  "globals (snd (run env evs s)) =
     foldl (\<lambda>w now. count_requests now w) (globals s) (hook_readings evs)"
proof (induction evs arbitrary: s)
  case Nil
  then show ?case by (simp add: run_Nil)
next
  case (Cons ev evs)
  show ?case
    by (cases ev) (simp_all add: run_Cons Cons.IH step_globals)
qed

lemma length_hook_readings: "length (hook_readings evs) = length (filter is_arrive evs)"
  by (induction evs rule: hook_readings.induct) (simp_all add: is_arrive_def)

lemma hook_readings_no_arrive: "list_all (\<lambda>ev. \<not> is_arrive ev) evs \<Longrightarrow> hook_readings evs = []"
  by (induction evs rule: hook_readings.induct) (simp_all add: is_arrive_def)

lemma foldl_count_requests_started:
  "STARTED_AT (foldl (\<lambda>w now. count_requests now w) w nows) = STARTED_AT w"
  by (induction nows arbitrary: w) (simp_all add: count_requests_def)

lemma foldl_count_requests_last:
  "LAST_HIT_UTC (foldl (\<lambda>w now. count_requests now w) w nows) =
     (if nows = [] then LAST_HIT_UTC w else Some (last nows))"
  by (induction nows arbitrary: w) (simp_all add: count_requests_def)

lemma step_in_flight:
  "int (length (in_flight (snd (step env ev s)))) + (if is_reply (fst (step env ev s)) then 1 else 0) =
     int (length (in_flight s)) + (if is_arrive ev then 1 else 0)"
  by (auto simp: step_def dispatch_request_def events_def Let_def is_reply_def is_arrive_def pull_def
      gen_close_def gen_throw_def 
      split: event.splits route.splits prod.splits outcome.splits gen_state.splits)

lemma run_in_flight:
  "int (length (in_flight (snd (run env evs s)))) + int (length (filter is_reply (fst (run env evs s)))) =
     int (length (in_flight s)) + int (length (filter is_arrive evs))"
proof (induction evs arbitrary: s)
  case Nil
  then show ?case by (simp add: run_Nil)
next
  case (Cons ev evs)
  from Cons.IH [of "snd (step env ev s)"] step_in_flight [of env ev s]
  show ?case by (simp add: run_Cons split: if_splits)
qed

text \<open>
  C5. The counter is 0 when the process starts; an arriving request, whatever its route,
  adds exactly 1 to it through the hook, and no other event changes it; it never
  decreases along a run; and every reply of a run belongs to a request that was counted
  before its handler ran (the replies and the requests still in flight add up to the
  counter).
\<close>

theorem total_requests_monotone:
  "TOTAL_REQUESTS (globals (boot t0)) = 0 \<and>
   TOTAL_REQUESTS (globals (snd (step env ev s))) =
     TOTAL_REQUESTS (globals s) + (if is_arrive ev then 1 else 0) \<and>
   TOTAL_REQUESTS (globals s) \<le> TOTAL_REQUESTS (globals (snd (run env evs s))) \<and>
   TOTAL_REQUESTS (globals (snd (run env evs (boot t0)))) = int (length (filter is_arrive evs)) \<and>
   int (length (filter is_reply (fst (run env evs (boot t0))))) +
     int (length (in_flight (snd (run env evs (boot t0))))) =
       TOTAL_REQUESTS (globals (snd (run env evs (boot t0))))"
proof -
  have a: "TOTAL_REQUESTS (globals (boot t0)) = 0"
    by (simp add: boot_def module_init_def)
  have b: "TOTAL_REQUESTS (globals (snd (step env ev s))) =
      TOTAL_REQUESTS (globals s) + (if is_arrive ev then 1 else 0)"
    by (cases ev) (simp_all add: step_globals is_arrive_def count_requests_def)
  have c: "TOTAL_REQUESTS (globals (snd (run env evs s'))) =
      TOTAL_REQUESTS (globals s') + int (length (filter is_arrive evs))" for s'
    by (simp add: run_globals foldl_count_requests length_hook_readings)
  have d: "TOTAL_REQUESTS (globals s) \<le> TOTAL_REQUESTS (globals (snd (run env evs s)))"
    by (simp add: c)
  have e: "TOTAL_REQUESTS (globals (snd (run env evs (boot t0)))) = int (length (filter is_arrive evs))"
    by (simp add: c a)
  have f: "int (length (filter is_reply (fst (run env evs (boot t0))))) +
     int (length (in_flight (snd (run env evs (boot t0))))) =
       TOTAL_REQUESTS (globals (snd (run env evs (boot t0))))"
    using run_in_flight [of env evs "boot t0"] by (simp add: e) (simp add: boot_def)
  from a b d e f show ?thesis by blast
qed

lemma snapshot_fst: "fst (snapshot w) = TOTAL_REQUESTS w"
  by (simp add: snapshot_def Let_def)

lemma snapshot_snd:
  "snd (snapshot w) = (case LAST_HIT_UTC w of Some t \<Rightarrow> PyStr (isoformat t) | None \<Rightarrow> PyNone)"
  by (simp add: snapshot_def Let_def)

text \<open>
  C6. In every state a run can reach from the start of the process, the read under the
  lock does not return a last hit together with a counter of 0: when the last hit is set,
  the counter is at least 1.
\<close>

theorem last_hit_implies_counted:
  "snd (snapshot (globals (snd (run env evs (boot t0))))) \<noteq> PyNone \<longrightarrow>
     1 \<le> fst (snapshot (globals (snd (run env evs (boot t0)))))"
proof
  let ?w = "globals (snd (run env evs (boot t0)))"
  assume "snd (snapshot ?w) \<noteq> PyNone"
  then have "LAST_HIT_UTC ?w \<noteq> None"
    by (auto simp: snapshot_snd split: option.splits)
  then have "hook_readings evs \<noteq> []"
    by (auto simp: run_globals foldl_count_requests_last boot_def module_init_def)
  then have "1 \<le> int (length (hook_readings evs))"
    by (cases "hook_readings evs") simp_all
  then show "1 \<le> fst (snapshot ?w)"
    by (simp add: snapshot_fst run_globals foldl_count_requests boot_def module_init_def)
qed

theorem last_hit_implies_counted_witness:
  "snd (snapshot (globals (snd (run ex_environ [Arrive (ex_request Healthz) ex_hit] (boot ex_start))))) \<noteq> PyNone \<and>
   fst (snapshot (globals (snd (run ex_environ [Arrive (ex_request Healthz) ex_hit] (boot ex_start))))) = 1"
proof -
  have h: "snd (snapshot (globals (snd (run ex_environ [Arrive (ex_request Healthz) ex_hit] (boot ex_start))))) \<noteq> PyNone"
    by (simp add: snapshot_snd run_globals count_requests_def)
  have "fst (snapshot (globals (snd (run ex_environ [Arrive (ex_request Healthz) ex_hit] (boot ex_start))))) \<le> 1"
    by (simp add: snapshot_fst run_globals count_requests_def boot_def module_init_def)
  with last_hit_implies_counted [of ex_environ "[Arrive (ex_request Healthz) ex_hit]" ex_start] h
  show ?thesis by simp
qed

text \<open>
  C7, as stated, fails: the hook stores whatever the wall clock shows, and a clock that
  was set back after the process started gives a last hit earlier than \<^verbatim>\<open>STARTED_AT\<close>.
\<close>

theorem last_hit_before_start:
  "LAST_HIT_UTC (globals (snd (run ex_environ [Arrive (ex_request Home) ex_before] (boot ex_start)))) = Some ex_before \<and>
   STARTED_AT (globals (snd (run ex_environ [Arrive (ex_request Home) ex_before] (boot ex_start)))) = ex_start \<and>
   \<not> not_earlier ex_before ex_start"
proof -
  have "\<not> not_earlier ex_before ex_start"
    by (simp add: dt_defs ex_defs)
  then show ?thesis
    by (simp add: run_globals count_requests_def boot_def module_init_def)
qed

text \<open>
  C7, amended. \<^verbatim>\<open>STARTED_AT\<close> never changes, and when every clock reading the hook takes
  is not earlier than it, the last hit, once set, is not earlier than it either.
\<close>

theorem last_hit_not_before_start:
  "list_all (\<lambda>now. not_earlier now t0) (hook_readings evs) \<Longrightarrow>
   LAST_HIT_UTC (globals (snd (run env evs (boot t0)))) = Some t \<Longrightarrow>
     STARTED_AT (globals (snd (run env evs (boot t0)))) = t0 \<and>
     not_earlier t (STARTED_AT (globals (snd (run env evs (boot t0)))))"
proof -
  assume clock: "list_all (\<lambda>now. not_earlier now t0) (hook_readings evs)"
    and set: "LAST_HIT_UTC (globals (snd (run env evs (boot t0)))) = Some t"
  have st: "STARTED_AT (globals (snd (run env evs (boot t0)))) = t0"
    by (simp add: run_globals foldl_count_requests_started boot_def module_init_def)
  from set have ne: "hook_readings evs \<noteq> []" and t: "t = last (hook_readings evs)"
    by (auto simp: run_globals foldl_count_requests_last boot_def module_init_def split: if_splits)
  from ne have "last (hook_readings evs) \<in> set (hook_readings evs)" by simp
  with clock t have "not_earlier t t0" by (simp add: list_all_iff)
  with st show ?thesis by simp
qed

theorem last_hit_not_before_start_witness:
  "list_all (\<lambda>now. not_earlier now ex_start) (hook_readings [Arrive (ex_request Home) ex_hit, Dispatch 0 ex_hit, Arrive (ex_request ApiStatus) ex_plus5]) \<and>
   LAST_HIT_UTC (globals (snd (run ex_environ [Arrive (ex_request Home) ex_hit, Dispatch 0 ex_hit, Arrive (ex_request ApiStatus) ex_plus5] (boot ex_start)))) = Some ex_plus5 \<and>
   not_earlier ex_plus5 (STARTED_AT (globals (snd (run ex_environ [Arrive (ex_request Home) ex_hit, Dispatch 0 ex_hit, Arrive (ex_request ApiStatus) ex_plus5] (boot ex_start)))))"
proof -
  have h1: "list_all (\<lambda>now. not_earlier now ex_start) (hook_readings [Arrive (ex_request Home) ex_hit, Dispatch 0 ex_hit, Arrive (ex_request ApiStatus) ex_plus5])"
    by (simp add: dt_defs ex_defs)
  have h2: "LAST_HIT_UTC (globals (snd (run ex_environ [Arrive (ex_request Home) ex_hit, Dispatch 0 ex_hit, Arrive (ex_request ApiStatus) ex_plus5] (boot ex_start)))) = Some ex_plus5"
    by (simp add: run_globals count_requests_def)
  from last_hit_not_before_start [OF h1 h2] h1 h2 show ?thesis by simp
qed

text \<open>
  C10. An arriving request runs the hook once, whatever its route (so the request that
  opens \<^verbatim>\<open>/events\<close>, like one for \<^verbatim>\<open>/healthz\<close>, adds exactly 1); running a handler,
  which for \<^verbatim>\<open>/events\<close> creates the generator, and pulling an item from a stream leave
  both globals as they are. Along a run the globals are those the hooks of the arriving
  requests leave: between two messages of a stream they change only if a request arrived.
\<close>

theorem stream_leaves_counter_alone:
  "globals (snd (step env (Arrive req now) s)) = count_requests now (globals s) \<and>
   TOTAL_REQUESTS (count_requests now (globals s)) = TOTAL_REQUESTS (globals s) + 1 \<and>
   globals (snd (step env (Dispatch i now) s)) = globals s \<and>
   globals (snd (step env (Pull k now1 now2 ok) s)) = globals s \<and>
   globals (snd (run env evs s)) = foldl (\<lambda>w now. count_requests now w) (globals s) (hook_readings evs) \<and>
   (list_all (\<lambda>ev. \<not> is_arrive ev) evs \<longrightarrow>
      globals (snd (run env evs s)) = globals s \<and>
      globals (snd (run env (Arrive req now # evs) s)) = count_requests now (globals s))"
proof -
  have quiet: "globals (snd (run env evs s')) = globals s'"
    if "list_all (\<lambda>ev. \<not> is_arrive ev) evs" for s'
    using that by (simp add: run_globals hook_readings_no_arrive)
  have opened: "globals (snd (run env (Arrive req now # evs) s)) = count_requests now (globals s)"
    if "list_all (\<lambda>ev. \<not> is_arrive ev) evs"
    using that by (simp add: run_globals hook_readings_no_arrive)
  show ?thesis
    using quiet opened
    by (simp add: step_globals run_globals count_requests_def)
qed

theorem stream_leaves_counter_alone_witness:
  "list_all (\<lambda>ev. \<not> is_arrive ev)
     [Dispatch 0 ex_hit, Pull 0 ex_plus5 ex_plus5 True, Pull 0 ex_later ex_later True] \<and>
   globals (snd (run ex_environ
     (Arrive (ex_request Events) ex_hit #
        [Dispatch 0 ex_hit, Pull 0 ex_plus5 ex_plus5 True, Pull 0 ex_later ex_later True])
     (boot ex_start))) = count_requests ex_hit (globals (boot ex_start)) \<and>
   TOTAL_REQUESTS (count_requests ex_hit (globals (boot ex_start))) = 1"
proof -
  have h: "list_all (\<lambda>ev. \<not> is_arrive ev)
     [Dispatch 0 ex_hit, Pull 0 ex_plus5 ex_plus5 True, Pull 0 ex_later ex_later True]"
    by (simp add: is_arrive_def)
  from stream_leaves_counter_alone [of ex_environ "ex_request Events" ex_hit "boot ex_start" 0 0
      ex_hit ex_hit True "[Dispatch 0 ex_hit, Pull 0 ex_plus5 ex_plus5 True, Pull 0 ex_later ex_later True]"] h
  show ?thesis by (simp add: boot_def module_init_def)
qed

section \<open>The text of a timestamp\<close>

lemma below_ten: "n < 10 \<Longrightarrow> n \<in> {0, 1, 2, 3, 4, 5, 6, 7, 8, 9::nat}"
  by auto

lemma digit_char_is_digit: "n < 10 \<Longrightarrow> is_digit (digit_char n)"
  by (drule below_ten) (auto simp: digit_char_def is_digit_def)

lemma str_nat_digits: "list_all is_digit (str_nat n)"
proof (induction n rule: str_nat.induct)
  case (1 n)
  show ?case
  proof (cases "n < 10")
    case True
    then show ?thesis by (subst str_nat.simps) (simp add: digit_char_is_digit)
  next
    case False
    with 1 have "list_all is_digit (str_nat (n div 10))" by simp
    with False show ?thesis by (subst str_nat.simps) (simp add: digit_char_is_digit)
  qed
qed

lemma length_str_nat: "0 < k \<Longrightarrow> n < 10 ^ k \<Longrightarrow> length (str_nat n) \<le> k"
proof (induction n arbitrary: k rule: str_nat.induct)
  case (1 n)
  show ?case
  proof (cases "n < 10")
    case True
    with 1 show ?thesis by (subst str_nat.simps) simp
  next
    case False
    with "1.prems" obtain j where k: "k = Suc j" by (cases k) auto
    with "1.prems" False have j: "0 < j" by (cases j) auto
    from "1.prems" k have "n div 10 < 10 ^ j"
      by (simp add: less_mult_imp_div_less mult.commute)
    from "1.IH" [OF False j this] k False show ?thesis
      by (subst str_nat.simps) simp
  qed
qed

lemma zero_pad_shape:
  assumes "0 < k" and "n < 10 ^ k"
  shows "length (zero_pad k n) = k" and "list_all is_digit (zero_pad k n)"
proof -
  from length_str_nat [OF assms] show "length (zero_pad k n) = k"
    by (simp add: zero_pad_def Let_def)
  have "is_digit CHR ''0''" by (simp add: is_digit_def)
  with str_nat_digits [of n] show "list_all is_digit (zero_pad k n)"
    by (auto simp: zero_pad_def Let_def list_all_iff)
qed

lemma matches_digits: "list_all is_digit s \<Longrightarrow> matches (replicate (length s) CHR ''d'') s"
  by (induction s) simp_all

lemma matches_append: "matches p s \<Longrightarrow> matches q t \<Longrightarrow> matches (p @ q) (s @ t)"
  by (induction p s rule: matches.induct) simp_all

lemma zero_pad_matches: "0 < k \<Longrightarrow> n < 10 ^ k \<Longrightarrow> matches (replicate k CHR ''d'') (zero_pad k n)"
  using matches_digits [of "zero_pad k n"] by (simp add: zero_pad_shape)

lemma replicate_d:
  "replicate 2 CHR ''d'' = ''dd''" "replicate 4 CHR ''d'' = ''dddd''"
  "replicate 6 CHR ''d'' = ''dddddd''"
  by (simp_all add: numeral_eq_Suc)

lemma zero_pad_2: "n < 100 \<Longrightarrow> matches ''dd'' (zero_pad 2 n)"
  using zero_pad_matches [of 2 n] by (simp add: replicate_d)

lemma zero_pad_4: "n < 10000 \<Longrightarrow> matches ''dddd'' (zero_pad 4 n)"
  using zero_pad_matches [of 4 n] by (simp add: replicate_d)

lemma zero_pad_6: "n < 1000000 \<Longrightarrow> matches ''dddddd'' (zero_pad 6 n)"
  using zero_pad_matches [of 6 n] by (simp add: replicate_d)

lemma days_in_month_le: "m \<le> 12 \<Longrightarrow> days_in_month y m \<le> 31"
proof -
  assume "m \<le> 12"
  then have "DAYS_IN_MONTH ! m \<in> set DAYS_IN_MONTH"
    by (intro nth_mem) (simp add: DAYS_IN_MONTH_def)
  then have "DAYS_IN_MONTH ! m \<le> 31"
    by (auto simp: DAYS_IN_MONTH_def)
  then show ?thesis by (simp add: days_in_month_def)
qed

lemma isoformat_is_iso8601: "valid_datetime d \<Longrightarrow> is_iso8601 (isoformat d)"
proof -
  assume v: "valid_datetime d"
  then have y: "matches ''dddd'' (zero_pad 4 (year d))"
    and mo: "matches ''dd'' (zero_pad 2 (month d))"
    and h: "matches ''dd'' (zero_pad 2 (hour d))"
    and mi: "matches ''dd'' (zero_pad 2 (minute d))"
    and se: "matches ''dd'' (zero_pad 2 (second d))"
    and us: "matches ''dddddd'' (zero_pad 6 (microsecond d))"
    by (simp_all add: valid_datetime_def zero_pad_2 zero_pad_4 zero_pad_6)
  from v have "day d \<le> 31"
    using days_in_month_le [of "month d" "year d"] by (simp add: valid_datetime_def)
  then have da: "matches ''dd'' (zero_pad 2 (day d))" by (simp add: zero_pad_2)
  have lit: "matches ''-'' ''-''" "matches ''T'' ''T''" "matches '':'' '':''"
    "matches ''.'' ''.''" "matches ''+00:00'' ''+00:00''"
    by simp_all
  have time: "matches (''dddd'' @ ''-'' @ ''dd'' @ ''-'' @ ''dd'' @ ''T'' @ ''dd'' @ '':'' @ ''dd'' @ '':'' @ ''dd'')
     (zero_pad 4 (year d) @ ''-'' @ zero_pad 2 (month d) @ ''-'' @ zero_pad 2 (day d) @ ''T'' @
      zero_pad 2 (hour d) @ '':'' @ zero_pad 2 (minute d) @ '':'' @ zero_pad 2 (second d))"
    by (intro matches_append y mo da h mi se lit)
  show ?thesis
  proof (cases "microsecond d = 0")
    case True
    from matches_append [OF time lit(5)] True show ?thesis
      by (simp add: is_iso8601_def isoformat_def)
  next
    case False
    from matches_append [OF time matches_append [OF lit(4) matches_append [OF us lit(5)]]] False
    show ?thesis
      by (simp add: is_iso8601_def isoformat_def)
  qed
qed

lemma api_status_fields:
  "dict_get (api_status env req now w) ''uptime_seconds'' = Some (PyInt (uptime_seconds now w))"
  "dict_get (api_status env req now w) ''total_requests'' = Some (PyInt (TOTAL_REQUESTS w))"
  "dict_get (api_status env req now w) ''last_hit_utc'' =
     Some (case LAST_HIT_UTC w of Some t \<Rightarrow> PyStr (isoformat t) | None \<Rightarrow> PyNone)"
  "distinct (dict_keys (api_status env req now w))"
  by (simp_all add: api_status_def snapshot_def dict_get_def dict_keys_def Let_def)

section \<open>The status reply\<close>

lemma hook_ran_boot: "hook_ran (boot t0)"
  by (simp add: hook_ran_def boot_def module_init_def)

lemma hook_ran_step: "hook_ran s \<Longrightarrow> hook_ran (snd (step env ev s))"
proof -
  assume inv: "hook_ran s"
  show ?thesis
  proof (cases "is_arrive ev")
    case True
    then obtain req now where "ev = Arrive req now"
      by (cases ev) (simp_all add: is_arrive_def)
    with inv show ?thesis
      by (simp add: hook_ran_def step_def count_requests_def)
  next
    case False
    with step_in_flight [of env ev s]
    have "length (in_flight (snd (step env ev s))) \<le> length (in_flight s)"
      by (simp split: if_splits)
    moreover from False have "globals (snd (step env ev s)) = globals s"
      by (cases ev) (simp_all add: step_globals is_arrive_def)
    ultimately show ?thesis using inv by (simp add: hook_ran_def)
  qed
qed

lemma step_json_reply:
  assumes "fst (step env ev s) = Reply (Response c (JsonBody j))"
  shows "in_flight s \<noteq> [] \<and> (\<exists>req now. j = api_status env req now (globals s))"
proof (cases ev)
  case (Arrive req now)
  with assms show ?thesis by (simp add: step_def)
next
  case (Dispatch i now)
  with assms have i: "i < length (in_flight s)"
    by (auto simp: step_def split: if_splits)
  with assms Dispatch
  have "fst (dispatch_request env (in_flight s ! i) now s) = Response c (JsonBody j)"
    by (simp add: step_def Let_def split: prod.splits)
  then have "j = api_status env (in_flight s ! i) now (globals s)"
    by (auto simp: dispatch_request_def events_def home_def healthz_def Let_def split: route.splits)
  with i show ?thesis by auto
next
  case (Pull k now1 now2 ok)
  with assms show ?thesis
    by (auto simp: step_def pull_def Let_def split: if_splits prod.splits outcome.splits)
qed

lemma json_reply_counted:
  "hook_ran s \<Longrightarrow> Reply (Response c (JsonBody j)) \<in> set (fst (run env evs s)) \<Longrightarrow>
     \<exists>n t. dict_get j ''total_requests'' = Some (PyInt n) \<and> 1 \<le> n \<and>
           dict_get j ''last_hit_utc'' = Some (PyStr (isoformat t))"
proof (induction evs arbitrary: s)
  case Nil
  then show ?case by (simp add: run_Nil)
next
  case (Cons ev evs)
  from Cons.prems(2)
  consider (head) "fst (step env ev s) = Reply (Response c (JsonBody j))"
    | (tail) "Reply (Response c (JsonBody j)) \<in> set (fst (run env evs (snd (step env ev s))))"
    by (auto simp: run_Cons)
  then show ?case
  proof cases
    case head
    from step_json_reply [OF head] obtain req now
      where ne: "in_flight s \<noteq> []" and j: "j = api_status env req now (globals s)"
      by blast
    from ne have "1 \<le> int (length (in_flight s))" by (cases "in_flight s") simp_all
    with Cons.prems(1) have n: "1 \<le> TOTAL_REQUESTS (globals s)"
      and "LAST_HIT_UTC (globals s) \<noteq> None"
      by (simp_all add: hook_ran_def)
    then obtain t where "LAST_HIT_UTC (globals s) = Some t" by auto
    with n j show ?thesis by (auto simp: api_status_fields)
  next
    case tail
    from Cons.IH [OF hook_ran_step [OF Cons.prems(1)] tail] show ?thesis .
  qed
qed

text \<open>
  C9. Every JSON reply of a run from the start of the process (only \<^verbatim>\<open>/api/status\<close> gives
  one) reports a counter of at least 1 and a last hit that is a string, not null: the
  request's own hook ran before its handler read the globals, whatever other requests
  ran in between.
\<close>

theorem status_never_zero:
  "Reply (Response c (JsonBody j)) \<in> set (fst (run env evs (boot t0))) \<Longrightarrow>
     \<exists>n t. dict_get j ''total_requests'' = Some (PyInt n) \<and> 1 \<le> n \<and>
           dict_get j ''last_hit_utc'' = Some (PyStr (isoformat t))"
  by (rule json_reply_counted [OF hook_ran_boot])

lemma isoformat_ex_hit: "isoformat ex_hit = ''2024-03-01T12:00:02+00:00''"
  by (simp add: isoformat_def zero_pad_def str_nat.simps digit_char_def ex_defs)

lemma uptime_ex: "uptime_seconds ex_plus5 (module_init ex_start) = 5"
proof -
  have "datetime_sub ex_plus5 (STARTED_AT (module_init ex_start)) = 5000000"
    by (simp add: dt_defs ex_defs module_init_def)
  then show ?thesis by (simp add: uptime_seconds_def py_int_total_seconds)
qed

lemma run_status_ex:
  "fst (run ex_environ [Arrive (ex_request ApiStatus) ex_hit, Dispatch 0 ex_plus5] (boot ex_start)) =
     [Idle, Reply (Response 200 (JsonBody (api_status ex_environ (ex_request ApiStatus) ex_plus5
        (count_requests ex_hit (module_init ex_start)))))]"
  by (simp add: run_Cons run_Nil step_def dispatch_request_def boot_def ex_request_def)

theorem status_never_zero_witness:
  "Reply (Response 200 (JsonBody (api_status ex_environ (ex_request ApiStatus) ex_plus5
        (count_requests ex_hit (module_init ex_start)))))
     \<in> set (fst (run ex_environ [Arrive (ex_request ApiStatus) ex_hit, Dispatch 0 ex_plus5] (boot ex_start))) \<and>
   (\<exists>n t. dict_get (api_status ex_environ (ex_request ApiStatus) ex_plus5
        (count_requests ex_hit (module_init ex_start))) ''total_requests'' = Some (PyInt n) \<and> 1 \<le> n \<and>
      dict_get (api_status ex_environ (ex_request ApiStatus) ex_plus5
        (count_requests ex_hit (module_init ex_start))) ''last_hit_utc'' = Some (PyStr (isoformat t)))"
proof -
  have h: "Reply (Response 200 (JsonBody (api_status ex_environ (ex_request ApiStatus) ex_plus5
        (count_requests ex_hit (module_init ex_start)))))
     \<in> set (fst (run ex_environ [Arrive (ex_request ApiStatus) ex_hit, Dispatch 0 ex_plus5] (boot ex_start)))"
    by (simp add: run_status_ex)
  from status_never_zero [OF h] h show ?thesis by simp
qed

text \<open>
  C4. The handler of \<^verbatim>\<open>/api/status\<close> replies 200 with a JSON object (a dictionary whose
  keys are distinct) that has \<^verbatim>\<open>uptime_seconds\<close>, an integer, \<^verbatim>\<open>total_requests\<close>, an
  integer, and \<^verbatim>\<open>last_hit_utc\<close>: null when no hit is recorded, and otherwise the
  \<^verbatim>\<open>isoformat\<close> text of the last hit, which has the ISO-8601 shape for every value the
  clock can return.
\<close>

theorem api_status_response:
  assumes "i < length (in_flight s)" and "route (in_flight s ! i) = ApiStatus"
  shows "\<exists>j. fst (step env (Dispatch i now) s) = Reply (Response 200 (JsonBody j)) \<and>
       j = api_status env (in_flight s ! i) now (globals s) \<and>
       distinct (dict_keys j) \<and>
       dict_get j ''uptime_seconds'' = Some (PyInt (uptime_seconds now (globals s))) \<and>
       dict_get j ''total_requests'' = Some (PyInt (TOTAL_REQUESTS (globals s))) \<and>
       (case LAST_HIT_UTC (globals s) of
          None \<Rightarrow> dict_get j ''last_hit_utc'' = Some PyNone
        | Some t \<Rightarrow> dict_get j ''last_hit_utc'' = Some (PyStr (isoformat t)) \<and>
            (valid_datetime t \<longrightarrow> is_iso8601 (isoformat t)))"
proof -
  from assms have "fst (step env (Dispatch i now) s) =
      Reply (Response 200 (JsonBody (api_status env (in_flight s ! i) now (globals s))))"
    by (simp add: step_def dispatch_request_def)
  then show ?thesis
    by (simp add: api_status_fields isoformat_is_iso8601 split: option.splits)
qed

theorem api_status_response_witness:
  "0 < length (in_flight (snd (step ex_environ (Arrive (ex_request ApiStatus) ex_hit) (boot ex_start)))) \<and>
   route (in_flight (snd (step ex_environ (Arrive (ex_request ApiStatus) ex_hit) (boot ex_start))) ! 0) = ApiStatus \<and>
   valid_datetime ex_hit \<and>
   (\<exists>j. fst (step ex_environ (Dispatch 0 ex_plus5)
           (snd (step ex_environ (Arrive (ex_request ApiStatus) ex_hit) (boot ex_start)))) =
          Reply (Response 200 (JsonBody j)) \<and>
        dict_get j ''uptime_seconds'' = Some (PyInt 5) \<and>
        dict_get j ''total_requests'' = Some (PyInt 1) \<and>
        dict_get j ''last_hit_utc'' = Some (PyStr ''2024-03-01T12:00:02+00:00'')) \<and>
   is_iso8601 ''2024-03-01T12:00:02+00:00''"
proof -
  let ?s = "snd (step ex_environ (Arrive (ex_request ApiStatus) ex_hit) (boot ex_start))"
  have s: "?s = \<lparr>globals = count_requests ex_hit (module_init ex_start),
      in_flight = [ex_request ApiStatus], streams = []\<rparr>"
    by (simp add: step_def boot_def)
  have h1: "0 < length (in_flight ?s)" and h2: "route (in_flight ?s ! 0) = ApiStatus"
    by (simp_all add: step_def boot_def ex_request_def)
  have v: "valid_datetime ex_hit"
    by (simp add: valid_datetime_def days_in_month_def DAYS_IN_MONTH_def ex_defs)
  have g: "LAST_HIT_UTC (globals ?s) = Some ex_hit" "TOTAL_REQUESTS (globals ?s) = 1"
    "uptime_seconds ex_plus5 (globals ?s) = 5"
    using uptime_ex
    by (simp_all add: s count_requests_def module_init_def uptime_seconds_def)
  from api_status_response [OF h1 h2, of ex_environ ex_plus5] h1 h2 v g
  show ?thesis by (auto simp: isoformat_ex_hit)
qed

section \<open>The text of a message\<close>

lemma is_digit_printable: "is_digit c \<Longrightarrow> printable c"
  by (auto simp: is_digit_def printable_def)

lemma is_digit_escape: "is_digit c \<Longrightarrow> escape_char c = [c]"
  by (auto simp: is_digit_def escape_char_def)

lemma of_char_below: "(of_char c :: nat) < 256"
proof -
  have "(of_char c :: nat) mod 256 = of_char c" by (rule of_char_mod_256)
  moreover have "(of_char c :: nat) mod 256 < 256" by simp
  ultimately show ?thesis by simp
qed

lemma hex_char_printable: "n < 16 \<Longrightarrow> printable (hex_char n)"
proof -
  assume "n < 16"
  then have "hex_char n \<in> set ''0123456789abcdef''"
    unfolding hex_char_def by (intro nth_mem) simp
  then show ?thesis by (auto simp: printable_def)
qed

lemma escape_char_printable: "list_all printable (escape_char c)"
proof -
  have "of_char c div 16 < (16::nat)"
    using of_char_below [of c] by (intro less_mult_imp_div_less) simp
  moreover have "of_char c mod 16 < (16::nat)" by simp
  ultimately
  have hex: "printable (hex_char (of_char c div 16))" "printable (hex_char (of_char c mod 16))"
    by (simp_all add: hex_char_printable)
  have lit: "printable (CHR 0x5C)" "printable (CHR 0x22)" "printable CHR ''n''" "printable CHR ''r''"
    "printable CHR ''t''" "printable CHR ''b''" "printable CHR ''f''" "printable CHR ''u''"
    "printable CHR ''0''"
    by (simp_all add: printable_def)
  show ?thesis
    using hex lit by (simp add: escape_char_def Let_def) (simp add: printable_def)
qed

lemma encode_printable: "list_all printable (encode_basestring_ascii s)"
proof -
  have "list_all printable (concat (map escape_char s))"
    using escape_char_printable by (induction s) simp_all
  moreover have "printable (CHR 0x22)" by (simp add: printable_def)
  ultimately show ?thesis by (simp add: encode_basestring_ascii_def)
qed

lemma str_nat_printable: "list_all printable (str_nat n)"
  using str_nat_digits [of n] by (auto simp: list_all_iff is_digit_printable)

lemma str_int_printable: "list_all printable (str_int i)"
proof -
  have "printable CHR ''-''" by (simp add: printable_def)
  then show ?thesis by (simp add: str_int_def str_nat_printable)
qed

lemma join_printable:
  "list_all printable sep \<Longrightarrow> (\<forall>x \<in> set xs. list_all printable x) \<Longrightarrow>
     list_all printable (join sep xs)"
  by (induction sep xs rule: join.induct) simp_all

lemma json_dumps_printable: "list_all printable (json_dumps v)"
proof (induction v)
  case PyNone
  show ?case by (simp add: printable_def)
next
  case (PyInt i)
  show ?case by (simp add: str_int_printable)
next
  case (PyStr s)
  show ?case by (simp add: encode_printable)
next
  case (PyDict kvs)
  have sep: "list_all printable '', ''" and colon: "list_all printable '': ''"
    and braces: "printable CHR ''{''" "printable CHR ''}''"
    by (simp_all add: printable_def)
  have "\<forall>x \<in> set (map (\<lambda>(k, v). encode_basestring_ascii k @ '': '' @ json_dumps v) kvs).
      list_all printable x"
  proof
    fix x
    assume "x \<in> set (map (\<lambda>(k, v). encode_basestring_ascii k @ '': '' @ json_dumps v) kvs)"
    then obtain k v where kv: "(k, v) \<in> set kvs"
      and x: "x = encode_basestring_ascii k @ '': '' @ json_dumps v"
      by auto
    from kv have "list_all printable (json_dumps v)"
      by (intro PyDict.IH [of "(k, v)"]) simp_all
    with x colon show "list_all printable x"
      by (simp add: encode_printable)
  qed
  with sep braces show ?case by (simp add: join_printable)
qed

lemma printable_ascii: "list_all printable s \<Longrightarrow> ascii_only s"
  by (auto simp: list_all_iff ascii_only_def printable_def)

lemma printable_no_newline: "list_all printable s \<Longrightarrow> CHR 0x0A \<notin> set s \<and> CHR 0x0D \<notin> set s"
  by (auto simp: list_all_iff printable_def)

lemma concat_map_single: "(\<forall>c \<in> set s. f c = [c]) \<Longrightarrow> concat (map f s) = s"
  by (induction s) simp_all

lemma zero_pad_digits: "list_all is_digit (zero_pad k n)"
proof -
  have "is_digit CHR ''0''" by (simp add: is_digit_def)
  with str_nat_digits [of n] show ?thesis
    by (auto simp: zero_pad_def Let_def list_all_iff)
qed

lemma zero_pad_escape: "concat (map escape_char (zero_pad k n)) = zero_pad k n"
  using zero_pad_digits [of k n] by (intro concat_map_single) (simp add: list_all_iff is_digit_escape)

lemma isoformat_escape: "concat (map escape_char (isoformat d)) = isoformat d"
  by (simp add: isoformat_def zero_pad_escape) (simp add: escape_char_def)

lemma encode_isoformat: "encode_basestring_ascii (isoformat d) = CHR 0x22 # isoformat d @ [CHR 0x22]"
  by (simp add: encode_basestring_ascii_def isoformat_escape)

lemma encode_keys:
  \<open>encode_basestring_ascii ''uptime'' = ''"uptime"''\<close>
  \<open>encode_basestring_ascii ''total_requests'' = ''"total_requests"''\<close>
  \<open>encode_basestring_ascii ''last_hit_utc'' = ''"last_hit_utc"''\<close>
  \<open>encode_basestring_ascii ''ts'' = ''"ts"''\<close>
  by (simp_all add: encode_basestring_ascii_def escape_char_def)

lemma gen_payload_text:
  \<open>json_dumps (gen_payload now1 now2 w) =
     ''{"uptime": '' @ str_int (uptime_seconds now1 w) @
     '', "total_requests": '' @ str_int (TOTAL_REQUESTS w) @
     '', "last_hit_utc": '' @
       (case LAST_HIT_UTC w of None \<Rightarrow> ''null'' | Some t \<Rightarrow> ''"'' @ isoformat t @ ''"'') @
     '', "ts": "'' @ isoformat now2 @ ''"}''\<close>
  by (simp add: gen_payload_def snapshot_def Let_def encode_keys encode_isoformat split: option.splits)

lemma gen_send_yield:
  assumes "gen_send v now1 now2 w g = (sl, Yield m, g')"
  shows "m = gen_message now1 now2 w" and "sl = (if g = GEN_CREATED then [] else [1])"
    and "g' = GEN_SUSPENDED" and "g \<noteq> GEN_CLOSED"
  using assms by (cases g; simp split: if_splits)+

lemma gen_payload_fields:
  "dict_keys (gen_payload now1 now2 w) = [''uptime'', ''total_requests'', ''last_hit_utc'', ''ts'']"
  "dict_get (gen_payload now1 now2 w) ''uptime'' = Some (PyInt (uptime_seconds now1 w))"
  "dict_get (gen_payload now1 now2 w) ''total_requests'' = Some (PyInt (TOTAL_REQUESTS w))"
  "dict_get (gen_payload now1 now2 w) ''last_hit_utc'' =
     Some (case LAST_HIT_UTC w of None \<Rightarrow> PyNone | Some t \<Rightarrow> PyStr (isoformat t))"
  "dict_get (gen_payload now1 now2 w) ''ts'' = Some (PyStr (isoformat now2))"
  by (simp_all add: gen_payload_def snapshot_def dict_get_def dict_keys_def Let_def
      split: option.splits)

lemma gen_message_ascii: "ascii_only (gen_message now1 now2 w)"
proof -
  have "list_all printable ''data: ''" by (simp add: printable_def)
  then have "ascii_only (''data: '' @ json_dumps (gen_payload now1 now2 w))"
    by (intro printable_ascii) (simp add: json_dumps_printable)
  then show ?thesis by (simp add: gen_message_def ascii_only_def)
qed

lemma isoformat_ex_later: "isoformat ex_later = ''2024-03-01T12:00:09.250000+00:00''"
  by (simp add: isoformat_def zero_pad_def str_nat.simps digit_char_def ex_defs)

lemma str_int_small: "str_int 5 = ''5''" "str_int 1 = ''1''"
  by (simp_all add: str_int_def str_nat.simps digit_char_def)

section \<open>The end of a stream\<close>

lemma gen_close_ok: "gen_close g = (None, GEN_CLOSED)"
  by (cases g) (simp_all add: gen_close_def gen_throw_def)

lemma gen_next_open:
  "g \<noteq> GEN_CLOSED \<Longrightarrow>
     gen_next now1 now2 w g =
       (if g = GEN_CREATED then [] else [1], Yield (gen_message now1 now2 w), GEN_SUSPENDED)"
  by (cases g) (simp_all add: gen_next_def)

lemma pull_failed:
  "pull k False now1 now2 w g =
     (if g = GEN_CLOSED then Ended k else Dropped k (gen_message now1 now2 w) None, GEN_CLOSED)"
  by (cases g) (simp_all add: pull_def gen_next_def gen_close_ok)

lemma pull_closed: "pull k ok now1 now2 w GEN_CLOSED = (Ended k, GEN_CLOSED)"
  by (simp add: pull_def gen_next_def gen_close_ok)

lemma pull_observation:
  "fst (pull j ok now1 now2 w g) = Chunk k m \<or> fst (pull j ok now1 now2 w g) = Dropped k m e \<Longrightarrow> j = k"
  by (cases g) (auto simp: pull_def gen_next_def gen_close_ok split: if_splits)

lemma step_stream_output:
  assumes "fst (step env ev s) = Chunk k m \<or> fst (step env ev s) = Dropped k m e"
  shows "\<exists>now1 now2 ok. ev = Pull k now1 now2 ok \<and> k < length (streams s) \<and>
     fst (step env ev s) = fst (pull k ok now1 now2 (globals s) (streams s ! k))"
proof (cases ev)
  case (Arrive req now)
  with assms show ?thesis by (simp add: step_def)
next
  case (Dispatch i now)
  with assms show ?thesis by (auto simp: step_def Let_def split: prod.splits if_splits)
next
  case (Pull j now1 now2 ok)
  with assms have j: "j < length (streams s)"
    by (auto simp: step_def split: if_splits)
  with Pull have out: "fst (step env ev s) = fst (pull j ok now1 now2 (globals s) (streams s ! j))"
    by (simp add: step_def Let_def split: prod.splits)
  with assms pull_observation [of j ok now1 now2 "globals s" "streams s ! j" k m e]
  have "j = k" by simp
  with Pull j out show ?thesis by simp
qed

lemma closed_stays:
  assumes "k < length (streams s)" and "streams s ! k = GEN_CLOSED"
  shows "k < length (streams (snd (step env ev s)))"
    and "streams (snd (step env ev s)) ! k = GEN_CLOSED"
    and "fst (step env ev s) \<noteq> Chunk k m" and "fst (step env ev s) \<noteq> Dropped k m e"
proof -
  show "k < length (streams (snd (step env ev s)))"
    using assms(1)
    by (cases ev)
      (auto simp: step_def dispatch_request_def events_def Let_def split: prod.splits route.splits)
  show "streams (snd (step env ev s)) ! k = GEN_CLOSED"
  proof (cases ev)
    case (Arrive req now)
    with assms show ?thesis by (simp add: step_def)
  next
    case (Dispatch i now)
    with assms show ?thesis
      by (auto simp: step_def dispatch_request_def events_def Let_def nth_append
          split: prod.splits route.splits)
  next
    case (Pull j now1 now2 ok)
    with assms show ?thesis
      by (cases "j = k") (auto simp: step_def Let_def pull_closed split: prod.splits)
  qed
  have "\<not> (fst (step env ev s) = Chunk k m \<or> fst (step env ev s) = Dropped k m e)"
  proof
    assume "fst (step env ev s) = Chunk k m \<or> fst (step env ev s) = Dropped k m e"
    from step_stream_output [OF this] obtain now1 now2 ok
      where "fst (step env ev s) = fst (pull k ok now1 now2 (globals s) (streams s ! k))"
      by blast
    with assms(2) have "fst (step env ev s) = Ended k" by (simp add: pull_closed)
    with \<open>fst (step env ev s) = Chunk k m \<or> fst (step env ev s) = Dropped k m e\<close>
    show False by simp
  qed
  then show "fst (step env ev s) \<noteq> Chunk k m" and "fst (step env ev s) \<noteq> Dropped k m e"
    by simp_all
qed

lemma closed_forever:
  "k < length (streams s) \<Longrightarrow> streams s ! k = GEN_CLOSED \<Longrightarrow>
     k < length (streams (snd (run env evs s))) \<and>
     streams (snd (run env evs s)) ! k = GEN_CLOSED \<and>
     (\<forall>ob \<in> set (fst (run env evs s)). \<forall>m e. ob \<noteq> Chunk k m \<and> ob \<noteq> Dropped k m e)"
proof (induction evs arbitrary: s)
  case Nil
  then show ?case by (simp add: run_Nil)
next
  case (Cons ev evs)
  note c = closed_stays [OF Cons.prems, of env ev]
  from Cons.IH [OF c(1) c(2)] c(3) c(4) show ?case
    by (simp add: run_Cons)
qed

text \<open>
  C2, amended. The generator has no exit of its own and does not look at the result of an
  emit: resumed while not closed it yields a message, whatever value is passed back to it.
  The loop ends when the server, after a failed write, calls \<^verbatim>\<open>close()\<close>: the same pull
  leaves the stream closed, \<^verbatim>\<open>close()\<close> raises no error, and in everything that follows
  the stream stays closed and produces no further message.
\<close>

theorem failed_write_closes_stream:
  "k < length (streams s) \<Longrightarrow>
     (fst (step env (Pull k now1 now2 False) s) = Ended k \<or>
      (\<exists>m. fst (step env (Pull k now1 now2 False) s) = Dropped k m None)) \<and>
     streams (snd (step env (Pull k now1 now2 False) s)) ! k = GEN_CLOSED \<and>
     streams (snd (run env evs (snd (step env (Pull k now1 now2 False) s)))) ! k = GEN_CLOSED \<and>
     (\<forall>ob \<in> set (fst (run env evs (snd (step env (Pull k now1 now2 False) s)))).
        \<forall>m e. ob \<noteq> Chunk k m \<and> ob \<noteq> Dropped k m e) \<and>
     (\<forall>g. g \<noteq> GEN_CLOSED \<longrightarrow>
        (\<exists>sl m. gen_next now1 now2 (globals s) g = (sl, Yield m, GEN_SUSPENDED))) \<and>
     (\<forall>v. \<exists>m. gen_send v now1 now2 (globals s) GEN_SUSPENDED = ([1], Yield m, GEN_SUSPENDED))"
proof -
  assume k: "k < length (streams s)"
  let ?s1 = "snd (step env (Pull k now1 now2 False) s)"
  from k have out: "fst (step env (Pull k now1 now2 False) s) = Ended k \<or>
      (\<exists>m. fst (step env (Pull k now1 now2 False) s) = Dropped k m None)"
    by (simp add: step_def pull_failed)
  from k have len: "k < length (streams ?s1)" and cl: "streams ?s1 ! k = GEN_CLOSED"
    by (simp_all add: step_def pull_failed)
  from closed_forever [OF len cl, of env evs]
  have later: "streams (snd (run env evs ?s1)) ! k = GEN_CLOSED"
    "\<forall>ob \<in> set (fst (run env evs ?s1)). \<forall>m e. ob \<noteq> Chunk k m \<and> ob \<noteq> Dropped k m e"
    by simp_all
  have noend: "\<forall>g. g \<noteq> GEN_CLOSED \<longrightarrow>
      (\<exists>sl m. gen_next now1 now2 (globals s) g = (sl, Yield m, GEN_SUSPENDED))"
    by (simp add: gen_next_open)
  have nocheck: "\<forall>v. \<exists>m. gen_send v now1 now2 (globals s) GEN_SUSPENDED = ([1], Yield m, GEN_SUSPENDED)"
    by simp
  from out cl later noend nocheck show ?thesis by (intro conjI)
qed

theorem failed_write_closes_stream_witness:
  "0 < length (streams (snd (run ex_environ
      [Arrive (ex_request Events) ex_hit, Dispatch 0 ex_hit, Pull 0 ex_plus5 ex_plus5 True]
      (boot ex_start)))) \<and>
   fst (step ex_environ (Pull 0 ex_later ex_later False) (snd (run ex_environ
      [Arrive (ex_request Events) ex_hit, Dispatch 0 ex_hit, Pull 0 ex_plus5 ex_plus5 True]
      (boot ex_start)))) =
     Dropped 0 (gen_message ex_later ex_later (count_requests ex_hit (module_init ex_start))) None \<and>
   streams (snd (step ex_environ (Pull 0 ex_later ex_later False) (snd (run ex_environ
      [Arrive (ex_request Events) ex_hit, Dispatch 0 ex_hit, Pull 0 ex_plus5 ex_plus5 True]
      (boot ex_start))))) ! 0 = GEN_CLOSED \<and>
   streams (snd (run ex_environ [Pull 0 ex_later ex_later True, Pull 0 ex_later ex_later True]
      (snd (step ex_environ (Pull 0 ex_later ex_later False) (snd (run ex_environ
        [Arrive (ex_request Events) ex_hit, Dispatch 0 ex_hit, Pull 0 ex_plus5 ex_plus5 True]
        (boot ex_start))))))) ! 0 = GEN_CLOSED"
proof -
  let ?s = "snd (run ex_environ
      [Arrive (ex_request Events) ex_hit, Dispatch 0 ex_hit, Pull 0 ex_plus5 ex_plus5 True]
      (boot ex_start))"
  have s: "?s = \<lparr>globals = count_requests ex_hit (module_init ex_start), in_flight = [],
      streams = [GEN_SUSPENDED]\<rparr>"
    by (simp add: run_Cons run_Nil step_def dispatch_request_def events_def pull_def gen_next_def
        boot_def ex_request_def)
  have h: "0 < length (streams ?s)" by (simp add: s)
  from failed_write_closes_stream [OF h, of ex_environ ex_later ex_later
      "[Pull 0 ex_later ex_later True, Pull 0 ex_later ex_later True]"] h
  show ?thesis by (simp add: s step_def pull_failed)
qed

text \<open>
  C2, as stated, fails in one part: the exit is not a checked result of the emit. A
  generator that is told of a failed write through the value of its \<^verbatim>\<open>yield\<close> sleeps and
  yields the next message all the same; what ends it is the \<^verbatim>\<open>GeneratorExit\<close> that
  \<^verbatim>\<open>close()\<close> raises at the \<^verbatim>\<open>yield\<close>, which the body does not catch.
\<close>

theorem loop_ignores_emit_result:
  "gen_send (PyStr ''write failed'') ex_plus5 ex_later (module_init ex_start) GEN_SUSPENDED =
     ([1], Yield (gen_message ex_plus5 ex_later (module_init ex_start)), GEN_SUSPENDED) \<and>
   gen_throw GeneratorExit GEN_SUSPENDED = (Raise GeneratorExit, GEN_CLOSED) \<and>
   fst (pull 0 False ex_plus5 ex_later (module_init ex_start) GEN_SUSPENDED) =
     Dropped 0 (gen_message ex_plus5 ex_later (module_init ex_start)) None"
  by (simp add: gen_throw_def pull_failed)

section \<open>The messages of a stream\<close>

lemma pull_ok:
  "g \<noteq> GEN_CLOSED \<Longrightarrow> pull k True now1 now2 w g = (Chunk k (gen_message now1 now2 w), GEN_SUSPENDED)"
  by (simp add: pull_def gen_next_open)

lemma pull_chunk: "fst (pull k ok now1 now2 w g) = Chunk j m \<Longrightarrow> m = gen_message now1 now2 w"
  by (cases g) (auto simp: pull_def gen_next_def gen_close_ok split: if_splits)

lemma pull_is_chunk: "j \<noteq> k \<Longrightarrow> \<not> is_chunk k (fst (pull j ok now1 now2 w g))"
  by (cases g) (auto simp: pull_def gen_next_def gen_close_ok is_chunk_def split: if_splits)

lemma live_step:
  assumes "k < length (streams s)" and "streams s ! k \<noteq> GEN_CLOSED" and "\<not> failed_pull k ev"
  shows "k < length (streams (snd (step env ev s)))"
    and "streams (snd (step env ev s)) ! k = (if is_pull k ev then GEN_SUSPENDED else streams s ! k)"
    and "is_chunk k (fst (step env ev s)) = is_pull k ev"
proof -
  have "k < length (streams (snd (step env ev s))) \<and>
      streams (snd (step env ev s)) ! k = (if is_pull k ev then GEN_SUSPENDED else streams s ! k) \<and>
      is_chunk k (fst (step env ev s)) = is_pull k ev"
  proof (cases ev)
    case (Arrive req now)
    with assms show ?thesis by (simp add: step_def is_pull_def is_chunk_def)
  next
    case (Dispatch i now)
    with assms show ?thesis
      by (auto simp: step_def dispatch_request_def events_def Let_def nth_append is_pull_def
          is_chunk_def split: prod.splits route.splits)
  next
    case (Pull j now1 now2 ok)
    show ?thesis
    proof (cases "j = k")
      case True
      with Pull assms(3) have ok by (simp add: failed_pull_def)
      with Pull True assms(1,2) show ?thesis
        by (simp add: step_def pull_ok is_pull_def is_chunk_def)
    next
      case False
      with Pull assms(1) pull_is_chunk [OF False, of ok now1 now2 "globals s" "streams s ! j"]
      show ?thesis
        by (auto simp: step_def Let_def is_pull_def is_chunk_def split: prod.splits)
    qed
  qed
  then show "k < length (streams (snd (step env ev s)))"
    and "streams (snd (step env ev s)) ! k = (if is_pull k ev then GEN_SUSPENDED else streams s ! k)"
    and "is_chunk k (fst (step env ev s)) = is_pull k ev"
    by simp_all
qed

lemma live_run:
  "k < length (streams s) \<Longrightarrow> streams s ! k \<noteq> GEN_CLOSED \<Longrightarrow>
   list_all (\<lambda>ev. \<not> failed_pull k ev) evs \<Longrightarrow>
     k < length (streams (snd (run env evs s))) \<and>
     streams (snd (run env evs s)) ! k =
       (if filter (is_pull k) evs = [] then streams s ! k else GEN_SUSPENDED) \<and>
     length (filter (is_chunk k) (fst (run env evs s))) = length (filter (is_pull k) evs)"
proof (induction evs arbitrary: s)
  case Nil
  then show ?case by (simp add: run_Nil)
next
  case (Cons ev evs)
  from Cons.prems(3) have ev: "\<not> failed_pull k ev"
    and evs: "list_all (\<lambda>ev. \<not> failed_pull k ev) evs"
    by simp_all
  note st = live_step [OF Cons.prems(1,2) ev, of env]
  from st(2) Cons.prems(2) have live: "streams (snd (step env ev s)) ! k \<noteq> GEN_CLOSED"
    by (simp split: if_splits)
  from Cons.IH [OF st(1) live evs] st(2,3) show ?case
    by (cases "is_pull k ev"; cases "filter (is_pull k) evs = []") (simp_all add: run_Cons)
qed

lemma run_chunk_message:
  "Chunk j m \<in> set (fst (run env evs s)) \<Longrightarrow> \<exists>t1 t2 w. m = gen_message t1 t2 w"
proof (induction evs arbitrary: s)
  case Nil
  then show ?case by (simp add: run_Nil)
next
  case (Cons ev evs)
  from Cons.prems
  consider (head) "fst (step env ev s) = Chunk j m"
    | (tail) "Chunk j m \<in> set (fst (run env evs (snd (step env ev s))))"
    by (auto simp: run_Cons)
  then show ?case
  proof cases
    case head
    then have "fst (step env ev s) = Chunk j m \<or> fst (step env ev s) = Dropped j m None" by simp
    from step_stream_output [OF this] head obtain now1 now2 ok
      where "fst (pull j ok now1 now2 (globals s) (streams s ! j)) = Chunk j m"
      by auto
    from pull_chunk [OF this] show ?thesis by blast
  next
    case tail
    from Cons.IH [OF tail] show ?thesis .
  qed
qed

lemma events_opens:
  assumes "i < length (in_flight s)" and "route (in_flight s ! i) = Events"
  shows "fst (step env (Dispatch i now) s) = Reply (Response 200 (StreamBody (length (streams s))))"
    and "streams (snd (step env (Dispatch i now) s)) = streams s @ [GEN_CREATED]"
  using assms by (simp_all add: step_def dispatch_request_def events_def)

text \<open>
  C3. The handler of \<^verbatim>\<open>/events\<close> replies 200 with a stream whose generator is created and
  not yet run. As long as no write to the client has failed, every pull from the stream
  writes exactly one message; the first comes without a sleep, and every later one after
  exactly one \<^verbatim>\<open>time.sleep(1)\<close>. Every message of every run is the text \<^verbatim>\<open>data: \<close>,
  the JSON object, and two line feeds. The object has exactly the keys \<^verbatim>\<open>uptime\<close> and
  \<^verbatim>\<open>total_requests\<close> (integers), \<^verbatim>\<open>last_hit_utc\<close> (a string or null) and \<^verbatim>\<open>ts\<close> (the
  \<^verbatim>\<open>isoformat\<close> text of the clock reading taken for the sample, of ISO-8601 shape for
  every value the clock can return). The JSON text is printable ASCII, so the message is
  its own UTF-8 encoding and has no line break before the final two.
\<close>

theorem events_message_format:
  \<open>i < length (in_flight s) \<Longrightarrow> route (in_flight s ! i) = Events \<Longrightarrow>
   list_all (\<lambda>ev. \<not> failed_pull (length (streams s)) ev) evs \<Longrightarrow>
   (let k = length (streams s);
        s1 = snd (step env (Dispatch i now) s);
        s2 = snd (run env evs s1);
        first = (filter (is_pull k) evs = [])
    in fst (step env (Dispatch i now) s) = Reply (Response 200 (StreamBody k)) \<and>
       streams s1 = streams s @ [GEN_CREATED] \<and>
       length (filter (is_chunk k) (fst (run env evs s1))) = length (filter (is_pull k) evs) \<and>
       (\<forall>ob \<in> set (fst (run env evs s1)). \<forall>j m. ob = Chunk j m \<longrightarrow>
          (\<exists>t1 t2 w. m = gen_message t1 t2 w)) \<and>
       streams s2 ! k = (if first then GEN_CREATED else GEN_SUSPENDED) \<and>
       gen_next now1 now2 (globals s2) (streams s2 ! k) =
         (if first then [] else [1], Yield (gen_message now1 now2 (globals s2)), GEN_SUSPENDED) \<and>
       fst (step env (Pull k now1 now2 True) s2) = Chunk k (gen_message now1 now2 (globals s2))) \<and>
   gen_message now1 now2 w = ''data: '' @ json_dumps (gen_payload now1 now2 w) @ [CHR 0x0A, CHR 0x0A] \<and>
   json_dumps (gen_payload now1 now2 w) =
     ''{"uptime": '' @ str_int (uptime_seconds now1 w) @
     '', "total_requests": '' @ str_int (TOTAL_REQUESTS w) @
     '', "last_hit_utc": '' @
       (case LAST_HIT_UTC w of None \<Rightarrow> ''null'' | Some t \<Rightarrow> ''"'' @ isoformat t @ ''"'') @
     '', "ts": "'' @ isoformat now2 @ ''"}'' \<and>
   dict_keys (gen_payload now1 now2 w) = [''uptime'', ''total_requests'', ''last_hit_utc'', ''ts''] \<and>
   dict_get (gen_payload now1 now2 w) ''uptime'' = Some (PyInt (uptime_seconds now1 w)) \<and>
   dict_get (gen_payload now1 now2 w) ''total_requests'' = Some (PyInt (TOTAL_REQUESTS w)) \<and>
   dict_get (gen_payload now1 now2 w) ''last_hit_utc'' =
     Some (case LAST_HIT_UTC w of None \<Rightarrow> PyNone | Some t \<Rightarrow> PyStr (isoformat t)) \<and>
   dict_get (gen_payload now1 now2 w) ''ts'' = Some (PyStr (isoformat now2)) \<and>
   (valid_datetime now2 \<longrightarrow> is_iso8601 (isoformat now2)) \<and>
   list_all printable (json_dumps (gen_payload now1 now2 w)) \<and>
   ascii_only (gen_message now1 now2 w)\<close>
proof -
  assume i: "i < length (in_flight s)" and r: "route (in_flight s ! i) = Events"
    and conn: "list_all (\<lambda>ev. \<not> failed_pull (length (streams s)) ev) evs"
  let ?k = "length (streams s)"
  let ?s1 = "snd (step env (Dispatch i now) s)"
  let ?s2 = "snd (run env evs ?s1)"
  let ?first = "filter (is_pull ?k) evs = []"
  note opened = events_opens [OF i r, of env now]
  from opened(2) have k1: "?k < length (streams ?s1)" and g1: "streams ?s1 ! ?k = GEN_CREATED"
    by simp_all
  then have live1: "streams ?s1 ! ?k \<noteq> GEN_CLOSED" by simp
  from live_run [OF k1 live1 conn, of env] g1
  have k2: "?k < length (streams ?s2)"
    and g2: "streams ?s2 ! ?k = (if ?first then GEN_CREATED else GEN_SUSPENDED)"
    and count: "length (filter (is_chunk ?k) (fst (run env evs ?s1))) = length (filter (is_pull ?k) evs)"
    by simp_all
  have form: "\<forall>ob \<in> set (fst (run env evs ?s1)). \<forall>j m. ob = Chunk j m \<longrightarrow>
      (\<exists>t1 t2 w. m = gen_message t1 t2 w)"
    using run_chunk_message [of _ _ env evs ?s1] by blast
  from g2 have live2: "streams ?s2 ! ?k \<noteq> GEN_CLOSED" by (simp split: if_splits)
  have nxt: "gen_next now1 now2 (globals ?s2) (streams ?s2 ! ?k) =
      (if ?first then [] else [1], Yield (gen_message now1 now2 (globals ?s2)), GEN_SUSPENDED)"
    using g2 by (simp add: gen_next_open live2 split: if_splits)
  have chunk: "fst (step env (Pull ?k now1 now2 True) ?s2) = Chunk ?k (gen_message now1 now2 (globals ?s2))"
    using k2 live2 by (simp add: step_def pull_ok)
  have stream: "let k = length (streams s);
        s1 = snd (step env (Dispatch i now) s);
        s2 = snd (run env evs s1);
        first = (filter (is_pull k) evs = [])
    in fst (step env (Dispatch i now) s) = Reply (Response 200 (StreamBody k)) \<and>
       streams s1 = streams s @ [GEN_CREATED] \<and>
       length (filter (is_chunk k) (fst (run env evs s1))) = length (filter (is_pull k) evs) \<and>
       (\<forall>ob \<in> set (fst (run env evs s1)). \<forall>j m. ob = Chunk j m \<longrightarrow>
          (\<exists>t1 t2 w. m = gen_message t1 t2 w)) \<and>
       streams s2 ! k = (if first then GEN_CREATED else GEN_SUSPENDED) \<and>
       gen_next now1 now2 (globals s2) (streams s2 ! k) =
         (if first then [] else [1], Yield (gen_message now1 now2 (globals s2)), GEN_SUSPENDED) \<and>
       fst (step env (Pull k now1 now2 True) s2) = Chunk k (gen_message now1 now2 (globals s2))"
    unfolding Let_def by (intro conjI opened count form g2 nxt chunk)
  have m: "gen_message now1 now2 w = ''data: '' @ json_dumps (gen_payload now1 now2 w) @ [CHR 0x0A, CHR 0x0A]"
    by (simp add: gen_message_def)
  have iso: "valid_datetime now2 \<longrightarrow> is_iso8601 (isoformat now2)"
    by (simp add: isoformat_is_iso8601)
  show ?thesis
    by (intro conjI stream m gen_payload_text gen_payload_fields iso json_dumps_printable
        gen_message_ascii)
qed

lemma uptime_ex_hit: "uptime_seconds ex_hit (module_init ex_start) = 2"
proof -
  have "datetime_sub ex_hit (STARTED_AT (module_init ex_start)) = 2000000"
    by (simp add: dt_defs ex_defs module_init_def)
  then show ?thesis by (simp add: uptime_seconds_def py_int_total_seconds)
qed

lemma str_int_two: "str_int 2 = ''2''"
  by (simp add: str_int_def str_nat.simps digit_char_def)

lemma gen_message_ex:
  \<open>gen_message ex_hit ex_hit (count_requests ex_hit (module_init ex_start)) =
     ''data: {"uptime": 2, "total_requests": 1, "last_hit_utc": "2024-03-01T12:00:02+00:00", "ts": "2024-03-01T12:00:02+00:00"}''
       @ [CHR 0x0A, CHR 0x0A]\<close>
  \<open>gen_message ex_plus5 ex_later (count_requests ex_hit (module_init ex_start)) =
     ''data: {"uptime": 5, "total_requests": 1, "last_hit_utc": "2024-03-01T12:00:02+00:00", "ts": "2024-03-01T12:00:09.250000+00:00"}''
       @ [CHR 0x0A, CHR 0x0A]\<close>
proof -
  let ?w = "count_requests ex_hit (module_init ex_start)"
  have w: "uptime_seconds ex_hit ?w = 2" "uptime_seconds ex_plus5 ?w = 5" "TOTAL_REQUESTS ?w = 1"
    "LAST_HIT_UTC ?w = Some ex_hit"
    using uptime_ex uptime_ex_hit
    by (simp_all add: count_requests_def module_init_def uptime_seconds_def)
  show \<open>gen_message ex_hit ex_hit ?w =
     ''data: {"uptime": 2, "total_requests": 1, "last_hit_utc": "2024-03-01T12:00:02+00:00", "ts": "2024-03-01T12:00:02+00:00"}''
       @ [CHR 0x0A, CHR 0x0A]\<close>
    by (simp add: gen_message_def gen_payload_text w isoformat_ex_hit str_int_small str_int_two)
  show \<open>gen_message ex_plus5 ex_later ?w =
     ''data: {"uptime": 5, "total_requests": 1, "last_hit_utc": "2024-03-01T12:00:02+00:00", "ts": "2024-03-01T12:00:09.250000+00:00"}''
       @ [CHR 0x0A, CHR 0x0A]\<close>
    by (simp add: gen_message_def gen_payload_text w isoformat_ex_hit isoformat_ex_later
        str_int_small)
qed

theorem events_message_format_witness:
  \<open>0 < length (in_flight (snd (step ex_environ (Arrive (ex_request Events) ex_hit) (boot ex_start)))) \<and>
   route (in_flight (snd (step ex_environ (Arrive (ex_request Events) ex_hit) (boot ex_start))) ! 0) = Events \<and>
   list_all (\<lambda>ev. \<not> failed_pull
       (length (streams (snd (step ex_environ (Arrive (ex_request Events) ex_hit) (boot ex_start))))) ev)
     [Pull 0 ex_hit ex_hit True] \<and>
   fst (run ex_environ
        [Arrive (ex_request Events) ex_hit, Dispatch 0 ex_hit, Pull 0 ex_hit ex_hit True,
         Pull 0 ex_plus5 ex_later True]
        (boot ex_start)) =
     [Idle, Reply (Response 200 (StreamBody 0)),
      Chunk 0 (''data: {"uptime": 2, "total_requests": 1, "last_hit_utc": "2024-03-01T12:00:02+00:00", "ts": "2024-03-01T12:00:02+00:00"}''
        @ [CHR 0x0A, CHR 0x0A]),
      Chunk 0 (''data: {"uptime": 5, "total_requests": 1, "last_hit_utc": "2024-03-01T12:00:02+00:00", "ts": "2024-03-01T12:00:09.250000+00:00"}''
        @ [CHR 0x0A, CHR 0x0A])] \<and>
   gen_next ex_plus5 ex_later (count_requests ex_hit (module_init ex_start)) GEN_SUSPENDED =
     ([1],
      Yield (''data: {"uptime": 5, "total_requests": 1, "last_hit_utc": "2024-03-01T12:00:02+00:00", "ts": "2024-03-01T12:00:09.250000+00:00"}''
        @ [CHR 0x0A, CHR 0x0A]),
      GEN_SUSPENDED) \<and>
   valid_datetime ex_later \<and>
   is_iso8601 ''2024-03-01T12:00:09.250000+00:00''\<close>
proof -
  let ?w = "count_requests ex_hit (module_init ex_start)"
  let ?s = "snd (step ex_environ (Arrive (ex_request Events) ex_hit) (boot ex_start))"
  have s: "?s = \<lparr>globals = ?w, in_flight = [ex_request Events], streams = []\<rparr>"
    by (simp add: step_def boot_def)
  have h1: "0 < length (in_flight ?s)" and h2: "route (in_flight ?s ! 0) = Events"
    by (simp_all add: step_def boot_def ex_request_def)
  have h3: "list_all (\<lambda>ev. \<not> failed_pull (length (streams ?s)) ev) [Pull 0 ex_hit ex_hit True]"
    by (simp add: failed_pull_def)
  have v: "valid_datetime ex_later"
    by (simp add: valid_datetime_def days_in_month_def DAYS_IN_MONTH_def ex_defs)
  have s1: "snd (step ex_environ (Dispatch 0 ex_hit) ?s) =
      \<lparr>globals = ?w, in_flight = [], streams = [GEN_CREATED]\<rparr>"
    unfolding s by (simp add: step_def dispatch_request_def events_def ex_request_def)
  have s2: "snd (run ex_environ [Pull 0 ex_hit ex_hit True] (snd (step ex_environ (Dispatch 0 ex_hit) ?s))) =
      \<lparr>globals = ?w, in_flight = [], streams = [GEN_SUSPENDED]\<rparr>"
    and o2: "fst (run ex_environ [Pull 0 ex_hit ex_hit True] (snd (step ex_environ (Dispatch 0 ex_hit) ?s))) =
      [Chunk 0 (gen_message ex_hit ex_hit ?w)]"
    unfolding s1 by (simp_all add: run_Cons run_Nil step_def pull_ok)
  have whole: "fst (run ex_environ
        [Arrive (ex_request Events) ex_hit, Dispatch 0 ex_hit, Pull 0 ex_hit ex_hit True,
         Pull 0 ex_plus5 ex_later True] (boot ex_start)) =
     [Idle, fst (step ex_environ (Dispatch 0 ex_hit) ?s), Chunk 0 (gen_message ex_hit ex_hit ?w),
      fst (step ex_environ (Pull 0 ex_plus5 ex_later True)
        (snd (run ex_environ [Pull 0 ex_hit ex_hit True] (snd (step ex_environ (Dispatch 0 ex_hit) ?s)))))]"
    using o2 by (simp add: run_Cons run_Nil) (simp add: step_def)
  from events_message_format [OF h1 h2 h3, of ex_environ ex_hit ex_plus5 ex_later ?w]
  have th: "fst (step ex_environ (Dispatch 0 ex_hit) ?s) = Reply (Response 200 (StreamBody 0))"
    "gen_next ex_plus5 ex_later ?w GEN_SUSPENDED =
       ([1], Yield (gen_message ex_plus5 ex_later ?w), GEN_SUSPENDED)"
    "fst (step ex_environ (Pull 0 ex_plus5 ex_later True)
        (snd (run ex_environ [Pull 0 ex_hit ex_hit True] (snd (step ex_environ (Dispatch 0 ex_hit) ?s))))) =
       Chunk 0 (gen_message ex_plus5 ex_later ?w)"
    "valid_datetime ex_later \<longrightarrow> is_iso8601 (isoformat ex_later)"
    by (simp_all add: Let_def s2 is_pull_def) (simp_all add: s)
  from th v h1 h2 h3 show ?thesis
    by (simp add: whole gen_message_ex isoformat_ex_later)
qed

end
